theory Spec2Isabelle
  imports Main "HOL-Library.Sublist" "HOL-Library.AList"
begin

section \<open>Directory trees\<close>

text \<open>
  The program works on directory trees only through \<^verbatim>\<open>pathlib\<close>, \<^verbatim>\<open>shutil\<close> and the
  archive decoders. A tree node is a plain file, a file whose bytes decode as an archive
  of some format (with the entries the decoder would write), or a directory. A directory
  is the list of its entries in the order \<^verbatim>\<open>os.scandir\<close> reports them; a path is the list
  of names leading from the directory at hand to the entry.
\<close>

type_synonym name = string
type_synonym path = "name list"

datatype fmt = Zip | Rar | SevenZ

datatype node =
    Blob nat
  | Pack fmt "(name \<times> node) list"
  | Dir "(name \<times> node) list"

type_synonym entries = "(name \<times> node) list"

fun is_dir :: "node \<Rightarrow> bool" where
  "is_dir (Dir cs) = True"
| "is_dir _ = False"

text \<open>\<^verbatim>\<open>p.is_file()\<close> on an existing path.\<close>

fun is_file :: "node \<Rightarrow> bool" where
  "is_file (Dir cs) = False"
| "is_file _ = True"

text \<open>The node a relative path names inside a directory; the empty path is the directory itself.\<close>

fun lookup :: "entries \<Rightarrow> path \<Rightarrow> node option" where
  "lookup es [] = Some (Dir es)"
| "lookup es [n] = map_of es n"
| "lookup es (n # p) = (case map_of es n of Some (Dir cs) \<Rightarrow> lookup cs p | _ \<Rightarrow> None)"

section \<open>Names: \<^verbatim>\<open>str.lower\<close> and \<^verbatim>\<open>Path.suffix\<close>\<close>

text \<open>\<^verbatim>\<open>str.lower()\<close> on the ASCII letters (names are byte strings here).\<close>

definition lower_char :: "char \<Rightarrow> char" where
  "lower_char c = (let k = (of_char c :: nat) in if 65 \<le> k \<and> k \<le> 90 then char_of (k + 32) else c)"

definition lower :: "string \<Rightarrow> string" where
  "lower s = map lower_char s"

text \<open>
  \<^verbatim>\<open>Path.suffix\<close>: with \<^verbatim>\<open>i = name.rfind('.')\<close>, the suffix is \<^verbatim>\<open>name[i:]\<close> when
  \<^verbatim>\<open>0 < i < len(name) - 1\<close> and the empty string otherwise. \<open>after_dot\<close> is the text after the
  last dot.
\<close>

definition after_dot :: "string \<Rightarrow> string" where
  "after_dot nm = rev (takeWhile (\<lambda>c. c \<noteq> CHR ''.'') (rev nm))"

definition path_suffix :: "string \<Rightarrow> string" where
  "path_suffix nm =
     (if CHR ''.'' \<in> set nm \<and> Suc (length (after_dot nm)) < length nm \<and> after_dot nm \<noteq> []
      then CHR ''.'' # after_dot nm else [])"

text \<open>\<^verbatim>\<open>Path.stem\<close>: the name without its suffix.\<close>

definition path_stem :: "string \<Rightarrow> string" where
  "path_stem nm = take (length nm - length (path_suffix nm)) nm"

section \<open>Configuration\<close>

definition DAZ_FOLDERS :: "string list" where
  "DAZ_FOLDERS = [''data'', ''People'', ''Props'', ''Runtime'', ''Environments'', ''Scenes'']"

definition PROMO_EXTS :: "string list" where
  "PROMO_EXTS = [''.jpg'', ''.jpeg'', ''.png'', ''.gif'', ''.pdf'', ''.txt'', ''.doc'', ''.docx'', ''.rtf'']"

definition ARCHIVE_EXTS :: "string list" where
  "ARCHIVE_EXTS = [''.zip'', ''.rar'', ''.7z'']"

section \<open>\<^verbatim>\<open>Path.rglob("*")\<close>\<close>

text \<open>
  \<^verbatim>\<open>root.rglob("*")\<close> walks the directories below \<^verbatim>\<open>root\<close> in pre-order, \<^verbatim>\<open>root\<close> first, and
  yields the entries of each directory it reaches, in listing order: first every entry of
  \<^verbatim>\<open>root\<close>, then for each subdirectory in turn everything the walk yields below it.
\<close>

fun rglob :: "entries \<Rightarrow> path list"
  and below :: "entries \<Rightarrow> path list" where
  "rglob es = map (\<lambda>e. [fst e]) es @ below es"
| "below [] = []"
| "below ((n, Dir cs) # es) = map ((#) n) (rglob cs) @ below es"
| "below ((n, Blob b) # es) = below es"
| "below ((n, Pack f cs) # es) = below es"

section \<open>The content-root locator\<close>

text \<open>
  \<^verbatim>\<open>daz_folders.intersection({p.name.lower() for p in d.iterdir() if p.is_dir()})\<close> is
  non-empty.
\<close>

definition has_daz :: "entries \<Rightarrow> bool" where
  "has_daz es = list_ex (\<lambda>e. is_dir (snd e) \<and> lower (fst e) \<in> set (map lower DAZ_FOLDERS)) es"

text \<open>The loop of case 2 over the paths \<^verbatim>\<open>rglob\<close> yields.\<close>

fun find_loop :: "entries \<Rightarrow> path list \<Rightarrow> path option" where
  "find_loop es [] = None"
| "find_loop es (p # ps) =
     (case lookup es p of
        Some (Dir cs) \<Rightarrow> if has_daz cs then Some p else find_loop es ps
      | _ \<Rightarrow> find_loop es ps)"

definition find_daz_root :: "entries \<Rightarrow> path option" where
  "find_daz_root es = (if has_daz es then Some [] else find_loop es (rglob es))"

text \<open>A path names a directory whose immediate subdirectories match.\<close>

definition qualifies :: "entries \<Rightarrow> path \<Rightarrow> bool" where
  "qualifies es p = (case lookup es p of Some (Dir cs) \<Rightarrow> has_daz cs | _ \<Rightarrow> False)"

section \<open>Outcomes, exceptions and console output\<close>

text \<open>
  The exceptions the model distinguishes. \<open>BadArchive\<close> stands for every decode failure of
  the three decoders (bad magic number, wrong format, truncated data); \<open>ShutilError\<close> is
  \<^verbatim>\<open>shutil.Error\<close>, raised by \<^verbatim>\<open>copytree\<close> after it has gone through the whole tree.
\<close>

datatype exn =
    FileNotFoundError
  | IsADirectoryError
  | FileExistsError
  | BadArchive
  | ShutilError

text \<open>One constructor for each \<^verbatim>\<open>print\<close> of the program.\<close>

datatype msg =
    SkippingUnsupported path
  | FailedToExtract path exn
  | NoMoreArchives nat
  | PassFound nat nat
  | ExtractingNested path
  | FailedNested path exn
  | Processing name
  | ContentsAfter "name list"
  | FoundRoot path
  | NoRootDetected
  | NoDazFolder name
  | KeepingTemp
  | Merged name
  | Normalized name name
  | Extracting name
  | DetectedRoot path
  | NoArchivesFound
  | AllDone

text \<open>\<^verbatim>\<open>Path.name\<close>: the last component, empty for the empty path.\<close>

definition path_name :: "path \<Rightarrow> name" where
  "path_name p = (if p = [] then [] else last p)"

text \<open>The entries of a directory node; nothing for anything else.\<close>

fun the_dir :: "node option \<Rightarrow> entries" where
  "the_dir (Some (Dir cs)) = cs"
| "the_dir _ = []"

text \<open>Apply \<open>f\<close> to the entries of the directory at a path; no effect when the path names no directory.\<close>

fun modify_dir :: "path \<Rightarrow> (entries \<Rightarrow> entries) \<Rightarrow> entries \<Rightarrow> entries" where
  "modify_dir [] f es = f es"
| "modify_dir (n # p) f es =
     (case map_of es n of
        Some (Dir cs) \<Rightarrow> AList.update n (Dir (modify_dir p f cs)) es
      | _ \<Rightarrow> es)"

section \<open>The archive extractor\<close>

text \<open>
  The decoders (\<^verbatim>\<open>zipfile\<close>, \<^verbatim>\<open>rarfile\<close>, \<^verbatim>\<open>py7zr\<close>) are libraries. Opening succeeds on a file
  whose bytes are an archive of the format asked for. \<^verbatim>\<open>extractall\<close> writes the members in
  order into the destination: a file member replaces a file of its name, a directory
  member merges into a directory of its name, and a member that meets an entry of the
  other kind raises, leaving what was written before it.
\<close>

fun open_archive :: "fmt \<Rightarrow> node option \<Rightarrow> exn + entries" where
  "open_archive f None = Inl FileNotFoundError"
| "open_archive f (Some (Dir cs)) = Inl IsADirectoryError"
| "open_archive f (Some (Blob b)) = Inl BadArchive"
| "open_archive f (Some (Pack g ms)) = (if f = g then Inr ms else Inl BadArchive)"

fun extractall :: "entries \<Rightarrow> entries \<Rightarrow> exn option \<times> entries"
  and extract_member :: "name \<Rightarrow> node \<Rightarrow> entries \<Rightarrow> exn option \<times> entries" where
  "extractall [] ds = (None, ds)"
| "extractall (m # ms) ds =
     (case extract_member (fst m) (snd m) ds of
        (Some e, ds') \<Rightarrow> (Some e, ds')
      | (None, ds') \<Rightarrow> extractall ms ds')"
| "extract_member n (Dir cs) ds =
     (case map_of ds n of
        None \<Rightarrow> (case extractall cs [] of (r, cs') \<Rightarrow> (r, AList.update n (Dir cs') ds))
      | Some (Dir old) \<Rightarrow> (case extractall cs old of (r, cs') \<Rightarrow> (r, AList.update n (Dir cs') ds))
      | Some _ \<Rightarrow> (Some FileExistsError, ds))"
| "extract_member n (Blob b) ds =
     (case map_of ds n of
        Some (Dir old) \<Rightarrow> (Some IsADirectoryError, ds)
      | _ \<Rightarrow> (None, AList.update n (Blob b) ds))"
| "extract_member n (Pack f ms) ds =
     (case map_of ds n of
        Some (Dir old) \<Rightarrow> (Some IsADirectoryError, ds)
      | _ \<Rightarrow> (None, AList.update n (Pack f ms) ds))"

text \<open>
  The body of the \<^verbatim>\<open>try\<close> of \<^verbatim>\<open>extract_archive\<close>: the exception it ends with, if any, the
  destination as it is then, and what it printed.
\<close>

definition decode_into :: "fmt \<Rightarrow> node option \<Rightarrow> entries \<Rightarrow> exn option \<times> entries \<times> msg list" where
  "decode_into f archive ds =
     (case open_archive f archive of
        Inl e \<Rightarrow> (Some e, ds, [])
      | Inr ms \<Rightarrow> (case extractall ms ds of (r, ds') \<Rightarrow> (r, ds', [])))"

definition extract_archive_try :: "path \<Rightarrow> node option \<Rightarrow> entries \<Rightarrow> exn option \<times> entries \<times> msg list" where
  "extract_archive_try archive_path archive ds =
     (let ext = lower (path_suffix (path_name archive_path)) in
      if ext = ''.zip'' then decode_into Zip archive ds
      else if ext = ''.rar'' then decode_into Rar archive ds
      else if ext = ''.7z'' then decode_into SevenZ archive ds
      else (None, ds, [SkippingUnsupported archive_path]))"

text \<open>
  \<^verbatim>\<open>extract_archive(archive_path, dest_dir)\<close>: \<open>archive\<close> is what \<^verbatim>\<open>archive_path\<close> names and
  \<open>ds\<close> the entries of \<^verbatim>\<open>dest_dir\<close>. The \<^verbatim>\<open>except Exception\<close> clause prints and falls through.
\<close>

definition extract_archive :: "path \<Rightarrow> node option \<Rightarrow> entries \<Rightarrow> exn option \<times> entries \<times> msg list" where
  "extract_archive archive_path archive ds =
     (case extract_archive_try archive_path archive ds of
        (Some e, ds', out) \<Rightarrow> (None, ds', out @ [FailedToExtract archive_path e])
      | (None, ds', out) \<Rightarrow> (None, ds', out))"

section \<open>The recursive unpacker\<close>

text \<open>\<^verbatim>\<open>archive.unlink(missing_ok=True)\<close> inside a tree.\<close>

definition unlink :: "path \<Rightarrow> entries \<Rightarrow> exn option \<times> entries" where
  "unlink p es =
     (case lookup es p of
        None \<Rightarrow> (None, es)
      | Some (Dir cs) \<Rightarrow> (Some IsADirectoryError, es)
      | Some _ \<Rightarrow> (None, modify_dir (butlast p) (AList.delete (path_name p)) es))"

text \<open>The body of the \<^verbatim>\<open>for archive in archives\<close> loop, with its \<^verbatim>\<open>try\<close>.\<close>

definition unpack_one :: "path \<Rightarrow> entries \<Rightarrow> entries \<times> msg list" where
  "unpack_one archive es =
     (case extract_archive archive (lookup es archive) (the_dir (lookup es (butlast archive))) of
        (r, cs', out) \<Rightarrow>
          (case unlink archive (modify_dir (butlast archive) (\<lambda>cs. cs') es) of
             (Some e, es') \<Rightarrow> (es', [ExtractingNested archive] @ out @ [FailedNested archive e])
           | (None, es') \<Rightarrow> (es', [ExtractingNested archive] @ out)))"

fun unpack_each :: "path list \<Rightarrow> entries \<Rightarrow> msg list \<Rightarrow> entries \<times> msg list" where
  "unpack_each [] es out = (es, out)"
| "unpack_each (a # as) es out =
     (case unpack_one a es of (es', out') \<Rightarrow> unpack_each as es' (out @ out'))"

definition is_archive_path :: "path \<Rightarrow> bool" where
  "is_archive_path p = (lower (path_suffix (path_name p)) \<in> set ARCHIVE_EXTS)"

text \<open>
  The \<^verbatim>\<open>while True\<close> loop of \<^verbatim>\<open>extract_all_archives_recursively\<close>; the result is \<open>None\<close> when
  the loop never reaches its \<^verbatim>\<open>break\<close>.
\<close>

partial_function (option) unpack_loop :: "nat \<Rightarrow> entries \<Rightarrow> msg list \<Rightarrow> (entries \<times> msg list) option" where
  "unpack_loop iteration es out =
     (let archives = filter is_archive_path (rglob es) in
      if archives = [] then Some (es, out @ [NoMoreArchives iteration])
      else (case unpack_each archives es (out @ [PassFound iteration (length archives)]) of
              (es', out') \<Rightarrow> unpack_loop (Suc iteration) es' out'))"

declare unpack_loop.simps [code]

definition extract_all_archives_recursively :: "entries \<Rightarrow> (entries \<times> msg list) option" where
  "extract_all_archives_recursively root = unpack_loop 0 root []"

section \<open>The selective copier\<close>

text \<open>
  \<^verbatim>\<open>shutil.copy2(item, dest)\<close> with \<^verbatim>\<open>dest = d / name\<close>, on the entries \<open>ds\<close> of \<^verbatim>\<open>d\<close>: when \<^verbatim>\<open>dest\<close>
  is an existing directory the file goes inside it under its own name; writing over a
  directory raises.
\<close>

definition copy2 :: "name \<Rightarrow> node \<Rightarrow> entries \<Rightarrow> exn option \<times> entries" where
  "copy2 n file ds =
     (case map_of ds n of
        Some (Dir cs) \<Rightarrow>
          (case map_of cs n of
             Some (Dir x) \<Rightarrow> (Some IsADirectoryError, ds)
           | _ \<Rightarrow> (None, AList.update n (Dir (AList.update n file cs)) ds))
      | _ \<Rightarrow> (None, AList.update n file ds))"

text \<open>
  \<^verbatim>\<open>shutil.copytree(item, dest, dirs_exist_ok=True)\<close> with \<^verbatim>\<open>dest = d / name\<close>: \<^verbatim>\<open>os.makedirs\<close>
  raises when \<^verbatim>\<open>dest\<close> is a file; otherwise every entry is copied with \<^verbatim>\<open>copy2\<close> or a
  recursive call, failures are collected, and \<^verbatim>\<open>shutil.Error\<close> is raised at the end when
  there were any.
\<close>

fun copytree :: "name \<Rightarrow> entries \<Rightarrow> entries \<Rightarrow> exn option \<times> entries"
  and copy_children :: "entries \<Rightarrow> entries \<Rightarrow> bool \<times> entries" where
  "copytree n cs ds =
     (case map_of ds n of
        None \<Rightarrow>
          (case copy_children cs [] of
             (bad, new) \<Rightarrow> (if bad then Some ShutilError else None, AList.update n (Dir new) ds))
      | Some (Dir old) \<Rightarrow>
          (case copy_children cs old of
             (bad, new) \<Rightarrow> (if bad then Some ShutilError else None, AList.update n (Dir new) ds))
      | Some _ \<Rightarrow> (Some FileExistsError, ds))"
| "copy_children [] ds = (False, ds)"
| "copy_children ((n, Dir cs) # ms) ds =
     (case copytree n cs ds of
        (r, ds') \<Rightarrow> (case copy_children ms ds' of (bad, ds'') \<Rightarrow> (r \<noteq> None \<or> bad, ds'')))"
| "copy_children ((n, Blob b) # ms) ds =
     (case copy2 n (Blob b) ds of
        (r, ds') \<Rightarrow> (case copy_children ms ds' of (bad, ds'') \<Rightarrow> (r \<noteq> None \<or> bad, ds'')))"
| "copy_children ((n, Pack f xs) # ms) ds =
     (case copy2 n (Pack f xs) ds of
        (r, ds') \<Rightarrow> (case copy_children ms ds' of (bad, ds'') \<Rightarrow> (r \<noteq> None \<or> bad, ds'')))"

text \<open>The test that makes \<^verbatim>\<open>copy_daz_root\<close> skip an item.\<close>

definition promo_skip :: "bool \<Rightarrow> name \<Rightarrow> bool" where
  "promo_skip include_promos n =
     (\<not> include_promos \<and> lower (path_suffix n) \<in> set PROMO_EXTS)"

text \<open>
  \<^verbatim>\<open>copy_daz_root\<close> on the entries of \<^verbatim>\<open>source_root\<close> and of \<^verbatim>\<open>output_dir\<close>. An exception of
  a copy ends the loop and leaves the function.
\<close>

fun copy_daz_root :: "entries \<Rightarrow> entries \<Rightarrow> bool \<Rightarrow> exn option \<times> entries" where
  "copy_daz_root [] ds include_promos = (None, ds)"
| "copy_daz_root (item # items) ds include_promos =
     (if promo_skip include_promos (fst item) then copy_daz_root items ds include_promos
      else
        (case (if is_dir (snd item) then copytree (fst item) (the_dir (Some (snd item))) ds
               else copy2 (fst item) (snd item) ds) of
           (Some e, ds') \<Rightarrow> (Some e, ds')
         | (None, ds') \<Rightarrow> copy_daz_root items ds' include_promos))"

section \<open>The orchestrator\<close>

text \<open>
  The input directory, the output directory and the scratch directories of
  \<^verbatim>\<open>tempfile.mkdtemp\<close> are kept apart: the state holds the entries of the output directory,
  the scratch directories that still exist when an archive has been dealt with, and the
  console.
\<close>

record state =
  outdir :: entries
  temps :: "entries list"
  console :: "msg list"

text \<open>How a block of statements ends: it runs off its end, executes \<^verbatim>\<open>return\<close>, or raises.\<close>

datatype flow = Fallthrough | Returned | Raised exn

text \<open>\<^verbatim>\<open>(d / n).mkdir(parents=True, exist_ok=True)\<close> on the entries of an existing \<^verbatim>\<open>d\<close>.\<close>

definition mkdir :: "name \<Rightarrow> entries \<Rightarrow> exn option \<times> entries" where
  "mkdir n ds =
     (case map_of ds n of
        None \<Rightarrow> (None, AList.update n (Dir []) ds)
      | Some (Dir cs) \<Rightarrow> (None, ds)
      | Some _ \<Rightarrow> (Some FileExistsError, ds))"

text \<open>\<^verbatim>\<open>shutil.make_archive(str(d / n), "zip", d / n)\<close>: the zip of the directory, beside it.\<close>

definition make_archive :: "name \<Rightarrow> entries \<Rightarrow> exn option \<times> entries" where
  "make_archive n ds =
     (case map_of ds (n @ ''.zip'') of
        Some (Dir cs) \<Rightarrow> (Some IsADirectoryError, ds)
      | _ \<Rightarrow> (None, AList.update (n @ ''.zip'') (Pack Zip (the_dir (map_of ds n))) ds))"

text \<open>\<^verbatim>\<open>mkdir\<close> of the target directory \<open>n\<close> and \<^verbatim>\<open>copy_daz_root\<close> into it.\<close>

definition copy_into :: "name \<Rightarrow> entries \<Rightarrow> bool \<Rightarrow> entries \<Rightarrow> exn option \<times> entries" where
  "copy_into n src include_promos out =
     (case mkdir n out of
        (Some e, out1) \<Rightarrow> (Some e, out1)
      | (None, out1) \<Rightarrow>
          (case copy_daz_root src (the_dir (map_of out1 n)) include_promos of
             (r, cd) \<Rightarrow> (r, AList.update n (Dir cd) out1)))"

text \<open>
  The \<^verbatim>\<open>if merge_into_content: ... else: ...\<close> statement, the same in the three blocks of
  \<^verbatim>\<open>process_archive\<close>; \<open>src\<close> are the entries of \<^verbatim>\<open>daz_root\<close>.
\<close>

definition emit :: "name \<Rightarrow> entries \<Rightarrow> bool \<Rightarrow> bool \<Rightarrow> entries \<Rightarrow> exn option \<times> entries \<times> msg list" where
  "emit archive_name src include_promos merge_into_content out =
     (if merge_into_content then
        (case copy_into ''Content'' src include_promos out of
           (Some e, out') \<Rightarrow> (Some e, out', [])
         | (None, out') \<Rightarrow> (None, out', [Merged archive_name]))
      else
        (let cleaned = path_stem archive_name @ ''_normalized'' in
         case copy_into cleaned src include_promos out of
           (Some e, out') \<Rightarrow> (Some e, out', [])
         | (None, out') \<Rightarrow>
             (case make_archive cleaned out' of
                (Some e, out'') \<Rightarrow> (Some e, out'', [])
              | (None, out'') \<Rightarrow> (None, out'', [Normalized archive_name (cleaned @ ''.zip'')]))))"

text \<open>
  From the \<^verbatim>\<open>if merge_into_content\<close> statement to the end of a block: the scratch directory
  \<open>tmp\<close> is removed unless \<^verbatim>\<open>keep_temp\<close> is set, and stays when an exception leaves the block.
\<close>

definition finish ::
  "name \<Rightarrow> entries \<Rightarrow> path \<Rightarrow> bool \<Rightarrow> bool \<Rightarrow> bool \<Rightarrow> state \<Rightarrow> flow \<times> state" where
  "finish archive_name tmp daz_root include_promos keep_temp merge_into_content st =
     (case emit archive_name (the_dir (lookup tmp daz_root)) include_promos merge_into_content (outdir st) of
        (Some e, out', printed) \<Rightarrow>
          (Raised e, st\<lparr>outdir := out', temps := temps st @ [tmp], console := console st @ printed\<rparr>)
      | (None, out', printed) \<Rightarrow>
          (Fallthrough,
           st\<lparr>outdir := out', temps := (if keep_temp then temps st @ [tmp] else temps st),
              console := console st @ printed\<rparr>))"

text \<open>Lines 110 to 143: the first block.\<close>

definition block1 ::
  "name \<Rightarrow> node \<Rightarrow> bool \<Rightarrow> bool \<Rightarrow> bool \<Rightarrow> state \<Rightarrow> (flow \<times> state) option" where
  "block1 archive_name archive include_promos keep_temp merge_into_content st =
     (case extract_archive [archive_name] (Some archive) [] of
        (r, t1, out1) \<Rightarrow>
          (case extract_all_archives_recursively t1 of
             None \<Rightarrow> None
           | Some (t2, out2) \<Rightarrow>
               (let printed = console st @ [Processing archive_name] @ out1 @ [ContentsAfter (map fst t1)] @ out2 in
                case find_daz_root t2 of
                  None \<Rightarrow>
                    Some (Returned,
                      st\<lparr>temps := (if keep_temp then temps st @ [t2] else temps st),
                         console := printed @ [NoRootDetected, NoDazFolder archive_name]
                                    @ (if keep_temp then [KeepingTemp] else [])\<rparr>)
                | Some daz_root \<Rightarrow>
                    Some (finish archive_name t2 daz_root include_promos keep_temp merge_into_content
                            (st\<lparr>console := printed @ [FoundRoot daz_root]\<rparr>)))))"

text \<open>The last resort of the second block: \<^verbatim>\<open>find_daz_root\<close> on every directory of the walk.\<close>

fun walk_fallback :: "entries \<Rightarrow> path list \<Rightarrow> path option" where
  "walk_fallback es [] = None"
| "walk_fallback es (sub # subs) =
     (case lookup es sub of
        Some (Dir cs) \<Rightarrow>
          (case find_daz_root cs of
             Some r \<Rightarrow> Some (sub @ r)
           | None \<Rightarrow> walk_fallback es subs)
      | _ \<Rightarrow> walk_fallback es subs)"

text \<open>Lines 145 to 180: the second block.\<close>

definition block2 ::
  "name \<Rightarrow> node \<Rightarrow> bool \<Rightarrow> bool \<Rightarrow> bool \<Rightarrow> state \<Rightarrow> (flow \<times> state) option" where
  "block2 archive_name archive include_promos keep_temp merge_into_content st =
     (case extract_archive [archive_name] (Some archive) [] of
        (r, t1, out1) \<Rightarrow>
          (case extract_all_archives_recursively t1 of
             None \<Rightarrow> None
           | Some (t2, out2) \<Rightarrow>
               (let printed = console st @ [Extracting archive_name] @ out1 @ out2 in
                case (case find_daz_root t2 of
                        Some r \<Rightarrow> Some r
                      | None \<Rightarrow> walk_fallback t2 (rglob t2)) of
                  None \<Rightarrow>
                    Some (Returned,
                      st\<lparr>temps := (if keep_temp then temps st @ [t2] else temps st),
                         console := printed @ [NoDazFolder archive_name]\<rparr>)
                | Some daz_root \<Rightarrow>
                    Some (finish archive_name t2 daz_root include_promos keep_temp merge_into_content
                            (st\<lparr>console := printed\<rparr>)))))"

text \<open>The retry of the third block: \<^verbatim>\<open>find_daz_root\<close> on the subfolders of the scratch directory.\<close>

fun subfolder_fallback :: "entries \<Rightarrow> path option" where
  "subfolder_fallback [] = None"
| "subfolder_fallback ((n, Dir cs) # es) =
     (case find_daz_root cs of
        Some r \<Rightarrow> Some (n # r)
      | None \<Rightarrow> subfolder_fallback es)"
| "subfolder_fallback ((n, Blob b) # es) = subfolder_fallback es"
| "subfolder_fallback ((n, Pack f ms) # es) = subfolder_fallback es"

text \<open>Lines 182 to 222: the third block.\<close>

definition block3 ::
  "name \<Rightarrow> node \<Rightarrow> bool \<Rightarrow> bool \<Rightarrow> bool \<Rightarrow> state \<Rightarrow> (flow \<times> state) option" where
  "block3 archive_name archive include_promos keep_temp merge_into_content st =
     (case extract_archive [archive_name] (Some archive) [] of
        (r, t1, out1) \<Rightarrow>
          (case extract_all_archives_recursively t1 of
             None \<Rightarrow> None
           | Some (t2, out2) \<Rightarrow>
               (let found = find_daz_root t2;
                    printed = console st @ [Extracting archive_name] @ out1 @ out2
                              @ [case found of Some r \<Rightarrow> DetectedRoot r | None \<Rightarrow> NoRootDetected] in
                case (case found of
                        Some r \<Rightarrow> Some r
                      | None \<Rightarrow> subfolder_fallback t2) of
                  None \<Rightarrow>
                    Some (Returned,
                      st\<lparr>temps := (if keep_temp then temps st @ [t2] else temps st),
                         console := printed @ [NoDazFolder archive_name]\<rparr>)
                | Some daz_root \<Rightarrow>
                    Some (finish archive_name t2 daz_root include_promos keep_temp merge_into_content
                            (st\<lparr>console := printed\<rparr>)))))"

text \<open>\<^verbatim>\<open>process_archive\<close>: the three blocks in a row.\<close>

definition process_archive ::
  "name \<Rightarrow> node \<Rightarrow> bool \<Rightarrow> bool \<Rightarrow> bool \<Rightarrow> state \<Rightarrow> (flow \<times> state) option" where
  "process_archive archive_name archive include_promos keep_temp merge_into_content st =
     (case block1 archive_name archive include_promos keep_temp merge_into_content st of
        Some (Fallthrough, st1) \<Rightarrow>
          (case block2 archive_name archive include_promos keep_temp merge_into_content st1 of
             Some (Fallthrough, st2) \<Rightarrow>
               block3 archive_name archive include_promos keep_temp merge_into_content st2
           | other \<Rightarrow> other)
      | other \<Rightarrow> other)"

text \<open>The \<^verbatim>\<open>for archive in archives\<close> loop of \<^verbatim>\<open>main\<close>; an exception of \<^verbatim>\<open>process_archive\<close> ends the run.\<close>

fun run_archives :: "entries \<Rightarrow> bool \<Rightarrow> bool \<Rightarrow> bool \<Rightarrow> state \<Rightarrow> (exn option \<times> state) option" where
  "run_archives [] include_promos keep_temp merge_into_content st = Some (None, st)"
| "run_archives (a # as) include_promos keep_temp merge_into_content st =
     (case process_archive (fst a) (snd a) include_promos keep_temp merge_into_content st of
        None \<Rightarrow> None
      | Some (Raised e, st') \<Rightarrow> Some (Some e, st')
      | Some (other, st') \<Rightarrow> run_archives as include_promos keep_temp merge_into_content st')"

text \<open>
  \<^verbatim>\<open>main\<close> after argument parsing, on the entries of \<^verbatim>\<open>input_dir\<close> and an \<^verbatim>\<open>output_dir\<close> that
  exists (or has just been created empty).
\<close>

definition main :: "entries \<Rightarrow> bool \<Rightarrow> bool \<Rightarrow> bool \<Rightarrow> state \<Rightarrow> (exn option \<times> state) option" where
  "main input_dir include_promos keep_temp merge_into_content st =
     (let archives = filter (\<lambda>f. is_file (snd f) \<and> lower (path_suffix (fst f)) \<in> set ARCHIVE_EXTS) input_dir in
      if archives = [] then Some (None, st\<lparr>console := console st @ [NoArchivesFound]\<rparr>)
      else
        (case run_archives archives include_promos keep_temp merge_into_content st of
           Some (None, st') \<Rightarrow> Some (None, st'\<lparr>console := console st' @ [AllDone]\<rparr>)
         | other \<Rightarrow> other))"

section \<open>Notions used to state the properties\<close>

text \<open>A path names a directory of the tree.\<close>

definition dir_at :: "entries \<Rightarrow> path \<Rightarrow> bool" where
  "dir_at es p = (case lookup es p of Some (Dir cs) \<Rightarrow> True | _ \<Rightarrow> False)"



text \<open>
  The test of the scan of the unpacker on the last component of a path: the lowercased
  \<^verbatim>\<open>Path.suffix\<close> of the name is one of \<^verbatim>\<open>ARCHIVE_EXTS\<close>.
\<close>

definition is_archive_name :: "name \<Rightarrow> bool" where
  "is_archive_name n = (lower (path_suffix n) \<in> set ARCHIVE_EXTS)"

text \<open>The decoder \<^verbatim>\<open>extract_archive\<close> chooses for a name, by the same suffix.\<close>

definition archive_fmt :: "name \<Rightarrow> fmt option" where
  "archive_fmt n =
     (let ext = lower (path_suffix n) in
      if ext = ''.zip'' then Some Zip
      else if ext = ''.rar'' then Some Rar
      else if ext = ''.7z'' then Some SevenZ
      else None)"


text \<open>
  The names that come to lie in one directory while it is unpacked: the names of its
  entries and, level by level, of the members of the archives among them that decode. The
  entries of a subdirectory lie in the subdirectory and are not among them.
\<close>

fun all_names :: "entries \<Rightarrow> name list"
  and inner_names :: "name \<Rightarrow> node \<Rightarrow> name list" where
  "all_names [] = []"
| "all_names (e # es) = fst e # inner_names (fst e) (snd e) @ all_names es"
| "inner_names n (Pack f ms) = (if archive_fmt n = Some f then all_names ms else [])"
| "inner_names n (Blob b) = []"
| "inner_names n (Dir cs) = []"

text \<open>
  Every directory, below the root or inside an archive that decodes, has a name without
  archive extension, and the names that come to lie in it are pairwise distinct.
\<close>

fun dirs_ok :: "entries \<Rightarrow> bool"
  and node_ok :: "name \<Rightarrow> node \<Rightarrow> bool" where
  "dirs_ok [] = True"
| "dirs_ok (e # es) = (node_ok (fst e) (snd e) \<and> dirs_ok es)"
| "node_ok n (Dir cs) = (\<not> is_archive_name n \<and> distinct (all_names cs) \<and> dirs_ok cs)"
| "node_ok n (Blob b) = True"
| "node_ok n (Pack f ms) = (if archive_fmt n = Some f then dirs_ok ms else True)"


text \<open>
  The files a tree holds at any level of nesting, each with the path it has once every
  archive that decodes is replaced by its members: the directories that lead to it, and no
  component for an archive, which is unpacked into the directory that holds it. A file
  with an archive extension that does not decode holds nothing.
\<close>

fun all_leaves :: "entries \<Rightarrow> (path \<times> node) list"
  and leaves_of :: "name \<Rightarrow> node \<Rightarrow> (path \<times> node) list" where
  "all_leaves [] = []"
| "all_leaves (e # es) = leaves_of (fst e) (snd e) @ all_leaves es"
| "leaves_of n (Dir cs) = map (\<lambda>l. (n # fst l, snd l)) (all_leaves cs)"
| "leaves_of n (Blob b) = (if is_archive_name n then [] else [([n], Blob b)])"
| "leaves_of n (Pack f ms) =
     (if is_archive_name n then (if archive_fmt n = Some f then all_leaves ms else [])
      else [([n], Pack f ms)])"

text \<open>
  The number of files with an archive extension that are still to be unpacked, those inside
  archives that decode included.
\<close>

fun pending :: "entries \<Rightarrow> nat"
  and pending_node :: "name \<Rightarrow> node \<Rightarrow> nat" where
  "pending [] = 0"
| "pending (e # es) = pending_node (fst e) (snd e) + pending es"
| "pending_node n (Dir cs) = pending cs"
| "pending_node n (Blob b) = (if is_archive_name n then 1 else 0)"
| "pending_node n (Pack f ms) =
     (if is_archive_name n then (if archive_fmt n = Some f then Suc (pending ms) else 1) else 0)"

text \<open>
  The per-archive sequence as section 4.5 of the specification words it, run once: a fresh
  scratch directory, extract, unpack, locate; when no root is found the scratch directory
  is kept or removed and nothing is written; otherwise copy into \<^verbatim>\<open>Content\<close> (merge mode) or
  into the normalized directory, which is then zipped, and the scratch directory is removed
  unless retention was requested. The console is left as it was: the comparison with
  \<open>process_archive\<close> is on the output directory and the scratch directories.
\<close>

definition single_sequence ::
  "name \<Rightarrow> node \<Rightarrow> bool \<Rightarrow> bool \<Rightarrow> bool \<Rightarrow> state \<Rightarrow> (flow \<times> state) option" where
  "single_sequence archive_name archive include_promos keep_temp merge_into_content st =
     (case extract_archive [archive_name] (Some archive) [] of
        (r, t1, out1) \<Rightarrow>
          (case extract_all_archives_recursively t1 of
             None \<Rightarrow> None
           | Some (t2, out2) \<Rightarrow>
               (case find_daz_root t2 of
                  None \<Rightarrow> Some (Returned, st\<lparr>temps := (if keep_temp then temps st @ [t2] else temps st)\<rparr>)
                | Some daz_root \<Rightarrow>
                    (case emit archive_name (the_dir (lookup t2 daz_root)) include_promos
                            merge_into_content (outdir st) of
                       (Some e, out', printed) \<Rightarrow>
                         Some (Raised e, st\<lparr>outdir := out', temps := temps st @ [t2]\<rparr>)
                     | (None, out', printed) \<Rightarrow>
                         Some (Fallthrough,
                           st\<lparr>outdir := out',
                              temps := (if keep_temp then temps st @ [t2] else temps st)\<rparr>)))))"

section \<open>Copies as sequences of actions\<close>

text \<open>
  To compare two runs of the copier, a copy is read as a sequence of actions on the entries
  of one directory: \<open>Put\<close> is \<^verbatim>\<open>copy2\<close> of a file, \<open>Tree\<close> is \<^verbatim>\<open>copytree\<close> of a directory, and
  \<open>PutPlain\<close> is the write \<^verbatim>\<open>copy2\<close> ends with once it has stepped into an existing
  directory (it does not step in a second time).
\<close>

datatype act = Put name node | PutPlain name node | Tree name entries

text \<open>The name an action works on.\<close>

fun key :: "act \<Rightarrow> name" where
  "key (Put n f) = n"
| "key (PutPlain n f) = n"
| "key (Tree n cs) = n"

text \<open>One action: whether it failed, and the entries after it.\<close>

fun step :: "act \<Rightarrow> entries \<Rightarrow> bool \<times> entries" where
  "step (Put n f) ds = (case copy2 n f ds of (r, ds') \<Rightarrow> (r \<noteq> None, ds'))"
| "step (PutPlain n f) ds =
     (case map_of ds n of
        Some (Dir cs) \<Rightarrow> (True, ds)
      | _ \<Rightarrow> (False, AList.update n f ds))"
| "step (Tree n cs) ds = (case copytree n cs ds of (r, ds') \<Rightarrow> (r \<noteq> None, ds'))"

text \<open>A sequence of actions that goes on after a failure, as the loop of \<^verbatim>\<open>copytree\<close> does.\<close>

fun run :: "act list \<Rightarrow> entries \<Rightarrow> bool list \<times> entries" where
  "run [] ds = ([], ds)"
| "run (a # as) ds =
     (case step a ds of
        (f, ds') \<Rightarrow> (case run as ds' of (fs, ds'') \<Rightarrow> (f # fs, ds'')))"

text \<open>The action \<^verbatim>\<open>copytree\<close> takes for an entry of the source.\<close>

fun act_of :: "name \<times> node \<Rightarrow> act" where
  "act_of (n, Dir cs) = Tree n cs"
| "act_of (n, Blob b) = Put n (Blob b)"
| "act_of (n, Pack f ms) = Put n (Pack f ms)"

text \<open>The effect of an action on what its name holds: nothing, a file or a directory.\<close>

fun step_val :: "act \<Rightarrow> node option \<Rightarrow> bool \<times> node option" where
  "step_val (Put n f) x =
     (case x of
        Some (Dir cs) \<Rightarrow>
          (case map_of cs n of
             Some (Dir y) \<Rightarrow> (True, x)
           | _ \<Rightarrow> (False, Some (Dir (AList.update n f cs))))
      | _ \<Rightarrow> (False, Some f))"
| "step_val (PutPlain n f) x =
     (case x of
        Some (Dir cs) \<Rightarrow> (True, x)
      | _ \<Rightarrow> (False, Some f))"
| "step_val (Tree n cs) x =
     (case x of
        None \<Rightarrow> (True \<in> set (fst (run (map act_of cs) [])), Some (Dir (snd (run (map act_of cs) []))))
      | Some (Dir old) \<Rightarrow>
          (True \<in> set (fst (run (map act_of cs) old)), Some (Dir (snd (run (map act_of cs) old))))
      | Some _ \<Rightarrow> (True, x))"

fun run_val :: "act list \<Rightarrow> node option \<Rightarrow> bool list \<times> node option" where
  "run_val [] x = ([], x)"
| "run_val (a # as) x =
     (case step_val a x of
        (f, x') \<Rightarrow> (case run_val as x' of (fs, x'') \<Rightarrow> (f # fs, x'')))"

text \<open>No two entries of a directory share a name, at every level.\<close>

fun well_formed :: "entries \<Rightarrow> bool"
  and well_formed_node :: "node \<Rightarrow> bool" where
  "well_formed [] = True"
| "well_formed (e # es) = (fst e \<notin> fst ` set es \<and> well_formed_node (snd e) \<and> well_formed es)"
| "well_formed_node (Dir cs) = well_formed cs"
| "well_formed_node (Blob b) = True"
| "well_formed_node (Pack f ms) = True"

text \<open>The two file actions carry files.\<close>

fun proper :: "act \<Rightarrow> bool" where
  "proper (Put n f) = is_file f"
| "proper (PutPlain n f) = is_file f"
| "proper (Tree n cs) = True"

text \<open>What an action does inside the directory its name holds.\<close>

fun tr :: "act \<Rightarrow> act list" where
  "tr (Put n f) = [PutPlain n f]"
| "tr (PutPlain n f) = []"
| "tr (Tree n cs) = map act_of cs"

definition inner :: "act list \<Rightarrow> act list" where
  "inner A = concat (map tr A)"

text \<open>The failure flags of a sequence of actions, from those of the actions inside.\<close>

fun regroup :: "act list \<Rightarrow> bool list \<Rightarrow> bool list" where
  "regroup [] fl = []"
| "regroup (Put n f # A) fl = hd fl # regroup A (tl fl)"
| "regroup (PutPlain n f # A) fl = True # regroup A fl"
| "regroup (Tree n cs # A) fl = (True \<in> set (take (length cs) fl)) # regroup A (drop (length cs) fl)"

text \<open>On a name that holds a file: directory actions fail, and the last file written stays.\<close>

fun is_tree :: "act \<Rightarrow> bool" where
  "is_tree (Tree n cs) = True"
| "is_tree _ = False"

fun last_file :: "act list \<Rightarrow> node \<Rightarrow> node" where
  "last_file [] g = g"
| "last_file (Put n f # A) g = last_file A f"
| "last_file (PutPlain n f # A) g = last_file A f"
| "last_file (Tree n cs # A) g = last_file A g"

text \<open>A weight that decreases from a sequence of actions to the actions inside.\<close>

fun wt_entries :: "entries \<Rightarrow> nat"
  and wt_node :: "node \<Rightarrow> nat" where
  "wt_entries [] = 0"
| "wt_entries (e # es) = wt_node (snd e) + wt_entries es"
| "wt_node (Dir cs) = Suc (wt_entries cs)"
| "wt_node (Blob b) = 2"
| "wt_node (Pack f ms) = 2"

fun wt_act :: "act \<Rightarrow> nat" where
  "wt_act (Put n f) = 2"
| "wt_act (PutPlain n f) = 1"
| "wt_act (Tree n cs) = Suc (wt_entries cs)"

definition wt :: "act list \<Rightarrow> nat" where
  "wt A = sum_list (map wt_act A)"

text \<open>A sequence of actions that ends at the first failure, as the loop of \<^verbatim>\<open>copy_daz_root\<close> does.\<close>

fun run_stop :: "act list \<Rightarrow> entries \<Rightarrow> bool \<times> entries" where
  "run_stop [] ds = (False, ds)"
| "run_stop (a # as) ds =
     (case step a ds of
        (True, ds') \<Rightarrow> (True, ds')
      | (False, ds') \<Rightarrow> run_stop as ds')"

text \<open>The actions such a sequence gets to, the failing one included.\<close>

fun executed :: "act list \<Rightarrow> entries \<Rightarrow> act list" where
  "executed [] ds = []"
| "executed (a # as) ds =
     (case step a ds of
        (True, ds') \<Rightarrow> [a]
      | (False, ds') \<Rightarrow> a # executed as ds')"

text \<open>The actions of one call of \<^verbatim>\<open>copy_daz_root\<close>.\<close>

definition item_acts :: "bool \<Rightarrow> entries \<Rightarrow> act list" where
  "item_acts include_promos src = map act_of (filter (\<lambda>i. \<not> promo_skip include_promos (fst i)) src)"

section \<open>Merge mode, on the output directory alone\<close>

text \<open>
  Successive copies into \<^verbatim>\<open>Content\<close>, one for each source root, up to the first exception:
  whether there was one, and the output directory as it is then.
\<close>

fun merge_run :: "entries list \<Rightarrow> bool \<Rightarrow> entries \<Rightarrow> bool \<times> entries" where
  "merge_run [] inc out = (False, out)"
| "merge_run (src # srcs) inc out =
     (case copy_into ''Content'' src inc out of
        (Some e, out') \<Rightarrow> (True, out')
      | (None, out') \<Rightarrow> merge_run srcs inc out')"

text \<open>\<^verbatim>\<open>Content\<close> exists and is not a directory.\<close>

definition blocked :: "entries \<Rightarrow> bool" where
  "blocked out = (case map_of out ''Content'' of Some (Dir cs) \<Rightarrow> False | Some _ \<Rightarrow> True | None \<Rightarrow> False)"

text \<open>
  What the scratch work on an archive yields, whatever the output directory holds: nothing
  when the unpacker never returns, otherwise the entries of the located root, if any.
\<close>

definition content_source :: "name \<Rightarrow> node \<Rightarrow> entries option option" where
  "content_source archive_name archive =
     (case extract_all_archives_recursively (fst (snd (extract_archive [archive_name] (Some archive) []))) of
        None \<Rightarrow> None
      | Some (t2, out2) \<Rightarrow>
          Some (case find_daz_root t2 of
                  None \<Rightarrow> None
                | Some daz_root \<Rightarrow> Some (the_dir (lookup t2 daz_root))))"

text \<open>What the loop of \<^verbatim>\<open>main\<close> does to the output directory in merge mode, three copies for each archive with a root.\<close>

fun merge_archives :: "entries \<Rightarrow> bool \<Rightarrow> entries \<Rightarrow> (bool \<times> entries) option" where
  "merge_archives [] inc out = Some (False, out)"
| "merge_archives (a # as) inc out =
     (case content_source (fst a) (snd a) of
        None \<Rightarrow> None
      | Some None \<Rightarrow> merge_archives as inc out
      | Some (Some src) \<Rightarrow>
          (case merge_run [src, src, src] inc out of
             (True, out') \<Rightarrow> Some (True, out')
           | (False, out') \<Rightarrow> merge_archives as inc out'))"

text \<open>The source roots the loop gets to, each three times.\<close>

fun processed :: "entries \<Rightarrow> bool \<Rightarrow> entries \<Rightarrow> entries list" where
  "processed [] inc out = []"
| "processed (a # as) inc out =
     (case content_source (fst a) (snd a) of
        Some (Some src) \<Rightarrow>
          (case merge_run [src, src, src] inc out of
             (True, out') \<Rightarrow> [src, src, src]
           | (False, out') \<Rightarrow> [src, src, src] @ processed as inc out')
      | _ \<Rightarrow> processed as inc out)"

text \<open>How a block ends after its copy, and whether a run ended with an exception.\<close>

definition flow_of :: "exn option \<Rightarrow> flow" where
  "flow_of r = (case r of Some e \<Rightarrow> Raised e | None \<Rightarrow> Fallthrough)"

definition raised :: "flow \<Rightarrow> bool" where
  "raised fl = (case fl of Raised e \<Rightarrow> True | _ \<Rightarrow> False)"

definition outcome :: "exn option \<times> state \<Rightarrow> bool \<times> entries" where
  "outcome r = (fst r \<noteq> None, outdir (snd r))"

section \<open>Properties of the content-root locator\<close>



lemma lookup_empty [simp]: "lookup [] (n # p) = None"
  by (cases p) simp_all

lemma qualifies_Nil: "qualifies es [] = has_daz es"
  by (simp add: qualifies_def)

lemma find_loop_Some:
  "find_loop es ps = Some p \<longleftrightarrow>
     (\<exists>pre post. ps = pre @ p # post \<and> qualifies es p \<and> (\<forall>q\<in>set pre. \<not> qualifies es q))"
proof (induction ps)
  case Nil
  then show ?case by simp
next
  case (Cons a ps)
  show ?case
  proof (cases "qualifies es a")
    case True
    then have "find_loop es (a # ps) = Some a"
      by (auto simp: qualifies_def split: option.splits node.splits)
    moreover have "(\<exists>pre post. a # ps = pre @ p # post \<and> qualifies es p \<and> (\<forall>q\<in>set pre. \<not> qualifies es q)) \<longleftrightarrow> p = a"
    proof
      assume "\<exists>pre post. a # ps = pre @ p # post \<and> qualifies es p \<and> (\<forall>q\<in>set pre. \<not> qualifies es q)"
      then obtain pre post where h: "a # ps = pre @ p # post" "\<forall>q\<in>set pre. \<not> qualifies es q" by blast
      show "p = a"
      proof (cases pre)
        case Nil
        with h show ?thesis by simp
      next
        case (Cons b pre')
        with h True show ?thesis by auto
      qed
    next
      assume "p = a"
      with True have "a # ps = [] @ p # ps \<and> qualifies es p \<and> (\<forall>q\<in>set []. \<not> qualifies es q)" by simp
      then show "\<exists>pre post. a # ps = pre @ p # post \<and> qualifies es p \<and> (\<forall>q\<in>set pre. \<not> qualifies es q)" by blast
    qed
    ultimately show ?thesis by auto
  next
    case False
    then have "find_loop es (a # ps) = find_loop es ps"
      by (auto simp: qualifies_def split: option.splits node.splits)
    moreover have "(\<exists>pre post. a # ps = pre @ p # post \<and> qualifies es p \<and> (\<forall>q\<in>set pre. \<not> qualifies es q))
        \<longleftrightarrow> (\<exists>pre post. ps = pre @ p # post \<and> qualifies es p \<and> (\<forall>q\<in>set pre. \<not> qualifies es q))"
      (is "?L \<longleftrightarrow> ?R")
    proof
      assume ?L
      then obtain pre post where h: "a # ps = pre @ p # post" "qualifies es p" "\<forall>q\<in>set pre. \<not> qualifies es q" by blast
      show ?R
      proof (cases pre)
        case Nil
        with h False show ?thesis by simp
      next
        case (Cons b pre')
        with h have "ps = pre' @ p # post \<and> qualifies es p \<and> (\<forall>q\<in>set pre'. \<not> qualifies es q)" by simp
        then show ?thesis by blast
      qed
    next
      assume ?R
      then obtain pre post where h: "ps = pre @ p # post" "qualifies es p" "\<forall>q\<in>set pre. \<not> qualifies es q" by blast
      with False have "a # ps = (a # pre) @ p # post \<and> qualifies es p \<and> (\<forall>q\<in>set (a # pre). \<not> qualifies es q)" by simp
      then show ?L by blast
    qed
    ultimately show ?thesis using Cons.IH by simp
  qed
qed

lemma find_loop_None:
  "find_loop es ps = None \<longleftrightarrow> (\<forall>q\<in>set ps. \<not> qualifies es q)"
  by (induction ps) (auto simp: qualifies_def split: option.splits node.splits)

lemma below_mem: "(n, Dir cs) \<in> set es \<Longrightarrow> q \<in> set (rglob cs) \<Longrightarrow> n # q \<in> set (below es)"
proof (induction es)
  case Nil
  then show ?case by simp
next
  case (Cons e es)
  obtain m nd where e: "e = (m, nd)" by (cases e)
  show ?case using Cons e by (cases nd) auto
qed

lemma lookup_in_rglob: "p \<noteq> [] \<Longrightarrow> lookup es p = Some nd \<Longrightarrow> p \<in> set (rglob es)"
proof (induction p arbitrary: es nd)
  case Nil
  then show ?case by simp
next
  case (Cons n p)
  show ?case
  proof (cases p)
    case Nil
    with Cons.prems have "map_of es n = Some nd" by simp
    then have "(n, nd) \<in> set es" by (rule map_of_SomeD)
    then have "[n] \<in> (\<lambda>e. [fst e]) ` set es" by force
    with Nil show ?thesis by (simp add: rglob.simps)
  next
    case (Cons m p')
    with Cons.prems obtain cs where cs: "map_of es n = Some (Dir cs)" "lookup cs p = Some nd"
      by (auto split: option.splits node.splits)
    from cs(1) have "(n, Dir cs) \<in> set es" by (rule map_of_SomeD)
    moreover have "p \<in> set (rglob cs)" using Cons.IH[OF _ cs(2)] Cons by simp
    ultimately have "n # p \<in> set (below es)" by (rule below_mem)
    then show ?thesis by (simp add: rglob.simps)
  qed
qed


lemma append_eq_split:
  "xs @ ys = pre @ x # post \<Longrightarrow>
     (\<exists>us. xs = pre @ x # us \<and> post = us @ ys) \<or> (\<exists>us. pre = xs @ us \<and> ys = us @ x # post)"
proof (induction xs arbitrary: pre)
  case Nil
  then show ?case by simp
next
  case (Cons a xs)
  show ?case
  proof (cases pre)
    case Nil
    with Cons.prems show ?thesis by simp
  next
    case (Cons b pre')
    with Cons.prems have "xs @ ys = pre' @ x # post" "a = b" by simp_all
    from Cons.IH[OF this(1)] \<open>a = b\<close> Cons show ?thesis by auto
  qed
qed

declare rglob.simps [simp del]

lemma below_split:
  "below es = pre @ (n # p) # post \<Longrightarrow>
     \<exists>cs pre2 post2. (n, Dir cs) \<in> set es \<and> rglob cs = pre2 @ p # post2 \<and> (#) n ` set pre2 \<subseteq> set pre"
proof (induction es arbitrary: pre)
  case Nil
  then show ?case by simp
next
  case (Cons e es)
  obtain m nd where e: "e = (m, nd)" by (cases e)
  show ?case
  proof (cases nd)
    case (Dir cs)
    with Cons.prems e have eq: "map ((#) m) (rglob cs) @ below es = pre @ (n # p) # post" by simp
    from append_eq_split[OF eq] show ?thesis
    proof
      assume "\<exists>us. map ((#) m) (rglob cs) = pre @ (n # p) # us \<and> post = us @ below es"
      then obtain us where m: "map ((#) m) (rglob cs) = pre @ (n # p) # us" by blast
      then obtain pre2 x post2 where r: "rglob cs = pre2 @ x # post2" "map ((#) m) pre2 = pre" "m # x = n # p"
        by (auto simp: map_eq_append_conv map_eq_Cons_conv)
      then have "(n, Dir cs) \<in> set (e # es) \<and> rglob cs = pre2 @ p # post2 \<and> (#) n ` set pre2 \<subseteq> set pre"
        using e Dir by auto
      then show ?thesis by blast
    next
      assume "\<exists>us. pre = map ((#) m) (rglob cs) @ us \<and> below es = us @ (n # p) # post"
      then obtain us where right: "pre = map ((#) m) (rglob cs) @ us" "below es = us @ (n # p) # post" by blast
      from Cons.IH[OF right(2)] obtain cs' pre2 post2 where
        "(n, Dir cs') \<in> set es" "rglob cs' = pre2 @ p # post2" "(#) n ` set pre2 \<subseteq> set us" by blast
      with right(1) have "(n, Dir cs') \<in> set (e # es) \<and> rglob cs' = pre2 @ p # post2 \<and> (#) n ` set pre2 \<subseteq> set pre"
        by auto
      then show ?thesis by blast
    qed
  next
    case (Blob b)
    with Cons.prems e have "below es = pre @ (n # p) # post" by simp
    from Cons.IH[OF this] show ?thesis by auto
  next
    case (Pack f ms)
    with Cons.prems e have "below es = pre @ (n # p) # post" by simp
    from Cons.IH[OF this] show ?thesis by auto
  qed
qed

lemma rglob_prefix_first:
  "rglob es = pre @ p # post \<Longrightarrow> q \<noteq> [] \<Longrightarrow> strict_prefix q p \<Longrightarrow> q \<in> set pre"
proof (induction q arbitrary: es p pre post)
  case Nil
  then show ?case by simp
next
  case (Cons n q)
  from Cons.prems(3) obtain p' where p: "p = n # p'" "strict_prefix q p'"
    by (cases p) (auto simp: strict_prefix_def)
  then have p'ne: "p' \<noteq> []" by auto
  have notin: "p \<notin> set (map (\<lambda>e. [fst e]) es)" using p p'ne by auto
  from Cons.prems(1) have eq: "map (\<lambda>e. [fst e]) es @ below es = pre @ p # post"
    by (simp add: rglob.simps)
  from append_eq_split[OF eq] show ?case
  proof
    assume "\<exists>us. map (\<lambda>e. [fst e]) es = pre @ p # us \<and> post = us @ below es"
    then obtain us where "map (\<lambda>e. [fst e]) es = pre @ p # us" by blast
    then have "p \<in> set (map (\<lambda>e. [fst e]) es)" by (metis in_set_conv_decomp)
    with notin show ?thesis by simp
  next
    assume "\<exists>us. pre = map (\<lambda>e. [fst e]) es @ us \<and> below es = us @ p # post"
    then obtain us where right: "pre = map (\<lambda>e. [fst e]) es @ us" "below es = us @ p # post" by blast
    from below_split[OF right(2)[unfolded p(1)]] obtain cs pre2 post2 where
      h: "(n, Dir cs) \<in> set es" "rglob cs = pre2 @ p' # post2" "(#) n ` set pre2 \<subseteq> set us" by blast
    show ?thesis
    proof (cases "q = []")
      case True
      from h(1) have "[n] \<in> set (map (\<lambda>e. [fst e]) es)" by force
      with right(1) True show ?thesis by auto
    next
      case False
      from Cons.IH[OF h(2) False p(2)] have "q \<in> set pre2" .
      with h(3) right(1) show ?thesis by auto
    qed
  qed
qed

lemma find_daz_root_ancestors:
  assumes "find_daz_root es = Some p" and "strict_prefix q p"
  shows "\<not> qualifies es q"
proof -
  from assms have nd: "\<not> has_daz es" by (auto simp: find_daz_root_def split: if_splits)
  with assms(1) have "find_loop es (rglob es) = Some p" by (simp add: find_daz_root_def)
  then obtain pre post where h: "rglob es = pre @ p # post" "\<forall>q\<in>set pre. \<not> qualifies es q"
    unfolding find_loop_Some by blast
  show ?thesis
  proof (cases "q = []")
    case True
    with nd show ?thesis by (simp add: qualifies_Nil)
  next
    case False
    from rglob_prefix_first[OF h(1) False assms(2)] h(2) show ?thesis by blast
  qed
qed


lemma find_daz_root_None_iff:
  "find_daz_root es = None \<longleftrightarrow> (\<forall>q. \<not> qualifies es q)"
proof
  assume n: "find_daz_root es = None"
  then have nd: "\<not> has_daz es" and fl: "find_loop es (rglob es) = None"
    by (auto simp: find_daz_root_def split: if_splits)
  show "\<forall>q. \<not> qualifies es q"
  proof
    fix q
    show "\<not> qualifies es q"
    proof (cases "q = []")
      case True
      with nd show ?thesis by (simp add: qualifies_Nil)
    next
      case False
      show ?thesis
      proof
        assume qq: "qualifies es q"
        then obtain cs where "lookup es q = Some (Dir cs)"
          by (auto simp: qualifies_def split: option.splits node.splits)
        with False have "q \<in> set (rglob es)" by (rule lookup_in_rglob)
        with fl qq show False by (simp add: find_loop_None)
      qed
    qed
  qed
next
  assume a: "\<forall>q. \<not> qualifies es q"
  then have "\<not> has_daz es" using qualifies_Nil by blast
  moreover from a have "find_loop es (rglob es) = None" by (simp add: find_loop_None)
  ultimately show "find_daz_root es = None" by (simp add: find_daz_root_def)
qed

lemma find_daz_root_Some_qualifies: "find_daz_root es = Some p \<Longrightarrow> qualifies es p"
  by (auto simp: find_daz_root_def qualifies_Nil find_loop_Some split: if_splits)

text \<open>
  Claim C5. When an immediate subdirectory of the root has a lowercased name among the known
  content folders, \<open>find_daz_root\<close> returns the root itself (the empty path) whatever lies
  below. Otherwise it returns \<open>p\<close> exactly when \<open>p\<close> is the first path of the walk that names
  a directory whose immediate subdirectories match. A tree whose only match is \<open>r\<close> yields
  \<open>r\<close> (the children of \<^verbatim>\<open>a/b\<close> for a lone \<^verbatim>\<open>a/b/People\<close>), and a tree in which no directory
  matches yields \<open>None\<close>.
\<close>

theorem find_daz_root_cases:
  "(has_daz es \<longrightarrow> find_daz_root es = Some [])
   \<and> (\<not> has_daz es \<longrightarrow>
        (find_daz_root es = Some p \<longleftrightarrow>
           (\<exists>pre post. rglob es = pre @ p # post \<and> qualifies es p \<and> (\<forall>q\<in>set pre. \<not> qualifies es q))))
   \<and> ((\<forall>q. qualifies es q \<longleftrightarrow> q = r) \<longrightarrow> find_daz_root es = Some r)
   \<and> ((\<forall>q. \<not> qualifies es q) \<longrightarrow> find_daz_root es = None)"
proof (intro conjI impI)
  assume "has_daz es"
  then show "find_daz_root es = Some []" by (simp add: find_daz_root_def)
next
  assume "\<not> has_daz es"
  then show "find_daz_root es = Some p \<longleftrightarrow>
           (\<exists>pre post. rglob es = pre @ p # post \<and> qualifies es p \<and> (\<forall>q\<in>set pre. \<not> qualifies es q))"
    by (simp add: find_daz_root_def find_loop_Some)
next
  assume only: "\<forall>q. qualifies es q \<longleftrightarrow> q = r"
  then have "\<not> (\<forall>q. \<not> qualifies es q)" by blast
  then obtain p where p: "find_daz_root es = Some p"
    unfolding find_daz_root_None_iff[symmetric] by blast
  then have "qualifies es p" by (rule find_daz_root_Some_qualifies)
  with only p show "find_daz_root es = Some r" by simp
next
  assume "\<forall>q. \<not> qualifies es q"
  then show "find_daz_root es = None" by (simp add: find_daz_root_None_iff)
qed

lemma no_match_example: "\<not> qualifies [(''readme'', Blob 0)] q"
proof (cases q)
  case Nil
  then show ?thesis by (simp add: qualifies_def has_daz_def)
next
  case (Cons n q')
  then show ?thesis by (cases q') (simp_all add: qualifies_def)
qed

lemma has_daz_People: "has_daz [(''People'', Dir [])]"
  by code_simp

lemma only_match_example:
  "qualifies [(''a'', Dir [(''b'', Dir [(''People'', Dir [])])])] q \<longleftrightarrow> q = [''a'', ''b'']"
proof -
  have n0: "\<not> has_daz [(''a'', Dir [(''b'', Dir [(''People'', Dir [])])])]" by code_simp
  have n1: "\<not> has_daz [(''b'', Dir [(''People'', Dir [])])]" by code_simp
  have n3: "\<not> has_daz []" by code_simp
  show ?thesis
  proof (cases q)
    case Nil
    then show ?thesis using n0 by (simp add: qualifies_def)
  next
    case c1: (Cons n1 q1)
    show ?thesis
    proof (cases q1)
      case Nil
      with c1 show ?thesis using n1 by (simp add: qualifies_def)
    next
      case c2: (Cons n2 q2)
      show ?thesis
      proof (cases q2)
        case Nil
        with c1 c2 show ?thesis using has_daz_People by (simp add: qualifies_def)
      next
        case c3: (Cons n3 q3)
        with c1 c2 show ?thesis using n3 by (cases q3) (simp_all add: qualifies_def)
      qed
    qed
  qed
qed

theorem find_daz_root_cases_witness:
  "has_daz [(''rUNTIME'', Dir [])] \<and> find_daz_root [(''rUNTIME'', Dir [])] = Some []
   \<and> \<not> has_daz [(''a'', Dir [(''b'', Dir [(''People'', Dir [])])])]
   \<and> find_daz_root [(''a'', Dir [(''b'', Dir [(''People'', Dir [])])])] = Some [''a'', ''b'']
   \<and> (\<exists>pre post.
         rglob [(''a'', Dir [(''b'', Dir [(''People'', Dir [])])])] = pre @ [''a'', ''b''] # post
         \<and> qualifies [(''a'', Dir [(''b'', Dir [(''People'', Dir [])])])] [''a'', ''b'']
         \<and> (\<forall>q\<in>set pre. \<not> qualifies [(''a'', Dir [(''b'', Dir [(''People'', Dir [])])])] q))
   \<and> find_daz_root [(''readme'', Blob 0)] = None"
proof -
  have h1: "has_daz [(''rUNTIME'', Dir [])]" by code_simp
  have h2: "\<not> has_daz [(''a'', Dir [(''b'', Dir [(''People'', Dir [])])])]" by code_simp
  have h3: "\<forall>q. qualifies [(''a'', Dir [(''b'', Dir [(''People'', Dir [])])])] q \<longleftrightarrow> q = [''a'', ''b'']"
    using only_match_example by blast
  have h4: "\<forall>q. \<not> qualifies [(''readme'', Blob 0)] q"
    using no_match_example by blast
  from h1 find_daz_root_cases[of "[(''rUNTIME'', Dir [])]"]
  have c1: "find_daz_root [(''rUNTIME'', Dir [])] = Some []" by blast
  from h3 find_daz_root_cases[of "[(''a'', Dir [(''b'', Dir [(''People'', Dir [])])])]" _ "[''a'', ''b'']"]
  have c3: "find_daz_root [(''a'', Dir [(''b'', Dir [(''People'', Dir [])])])] = Some [''a'', ''b'']" by blast
  from h2 c3 find_daz_root_cases[of "[(''a'', Dir [(''b'', Dir [(''People'', Dir [])])])]" "[''a'', ''b'']"]
  have c2: "\<exists>pre post.
         rglob [(''a'', Dir [(''b'', Dir [(''People'', Dir [])])])] = pre @ [''a'', ''b''] # post
         \<and> qualifies [(''a'', Dir [(''b'', Dir [(''People'', Dir [])])])] [''a'', ''b'']
         \<and> (\<forall>q\<in>set pre. \<not> qualifies [(''a'', Dir [(''b'', Dir [(''People'', Dir [])])])] q)"
    by blast
  from h4 find_daz_root_cases[of "[(''readme'', Blob 0)]"]
  have c4: "find_daz_root [(''readme'', Blob 0)] = None" by blast
  from h1 c1 h2 c3 c2 c4 show ?thesis by blast
qed

text \<open>
  Claim C4 as stated fails: with \<^verbatim>\<open>a/x/y/People\<close> listed before \<^verbatim>\<open>b/c/People\<close>, no
  subdirectory of the root matches, the locator returns \<^verbatim>\<open>a/x/y\<close> at depth 3, and \<^verbatim>\<open>b/c\<close> at
  depth 2 matches as well.
\<close>

theorem find_daz_root_shallowest_counterexample:
  "\<not> has_daz [(''a'', Dir [(''x'', Dir [(''y'', Dir [(''People'', Dir [])])])]),
              (''b'', Dir [(''c'', Dir [(''People'', Dir [])])])]
   \<and> find_daz_root [(''a'', Dir [(''x'', Dir [(''y'', Dir [(''People'', Dir [])])])]),
                    (''b'', Dir [(''c'', Dir [(''People'', Dir [])])])] = Some [''a'', ''x'', ''y'']
   \<and> qualifies [(''a'', Dir [(''x'', Dir [(''y'', Dir [(''People'', Dir [])])])]),
                 (''b'', Dir [(''c'', Dir [(''People'', Dir [])])])] [''b'', ''c'']
   \<and> length [''b'', ''c''] < length [''a'', ''x'', ''y'']"
  by code_simp

text \<open>
  Claim C4, amended. The directory \<open>find_daz_root\<close> returns matches, and no proper ancestor
  of it (a directory at a strictly smaller depth on its own branch, the root included)
  matches. When no subdirectory of the root matches, it is the first path of the walk that
  names a matching directory: directories of other branches are ordered by the walk only.
\<close>

theorem find_daz_root_no_ancestor:
  "find_daz_root es = Some p \<Longrightarrow>
     qualifies es p \<and> (\<forall>q. strict_prefix q p \<longrightarrow> \<not> qualifies es q)
     \<and> (\<not> has_daz es \<longrightarrow> (\<exists>pre post. rglob es = pre @ p # post \<and> (\<forall>q\<in>set pre. \<not> qualifies es q)))"
proof (intro conjI allI impI)
  assume f: "find_daz_root es = Some p"
  then show "qualifies es p" by (rule find_daz_root_Some_qualifies)
next
  fix q
  assume "find_daz_root es = Some p" and "strict_prefix q p"
  then show "\<not> qualifies es q" by (rule find_daz_root_ancestors)
next
  assume f: "find_daz_root es = Some p" and nd: "\<not> has_daz es"
  then have "find_loop es (rglob es) = Some p" by (simp add: find_daz_root_def)
  then show "\<exists>pre post. rglob es = pre @ p # post \<and> (\<forall>q\<in>set pre. \<not> qualifies es q)"
    unfolding find_loop_Some by blast
qed

theorem find_daz_root_no_ancestor_witness:
  "find_daz_root [(''a'', Dir [(''b'', Dir [(''People'', Dir [])])])] = Some [''a'', ''b'']
   \<and> qualifies [(''a'', Dir [(''b'', Dir [(''People'', Dir [])])])] [''a'', ''b'']
   \<and> strict_prefix [''a''] [''a'', ''b'']
   \<and> \<not> qualifies [(''a'', Dir [(''b'', Dir [(''People'', Dir [])])])] [''a'']
   \<and> \<not> has_daz [(''a'', Dir [(''b'', Dir [(''People'', Dir [])])])]
   \<and> (\<exists>pre post.
         rglob [(''a'', Dir [(''b'', Dir [(''People'', Dir [])])])] = pre @ [''a'', ''b''] # post
         \<and> (\<forall>q\<in>set pre. \<not> qualifies [(''a'', Dir [(''b'', Dir [(''People'', Dir [])])])] q))"
proof -
  have f: "find_daz_root [(''a'', Dir [(''b'', Dir [(''People'', Dir [])])])] = Some [''a'', ''b'']"
    by code_simp
  have s: "strict_prefix [''a''] [''a'', ''b'']" by simp
  have n: "\<not> has_daz [(''a'', Dir [(''b'', Dir [(''People'', Dir [])])])]" by code_simp
  from find_daz_root_no_ancestor[OF f] s f n show ?thesis by blast
qed

section \<open>Properties of the extractor and the copier\<close>

lemma extract_archive_try_unsupported:
  "lower (path_suffix (path_name p)) \<notin> set ARCHIVE_EXTS \<Longrightarrow>
     extract_archive_try p a ds = (None, ds, [SkippingUnsupported p])"
  by (simp add: extract_archive_try_def ARCHIVE_EXTS_def Let_def)

lemma extract_archive_try_supported:
  "(lower (path_suffix (path_name p)), f) \<in> {(''.zip'', Zip), (''.rar'', Rar), (''.7z'', SevenZ)} \<Longrightarrow>
     extract_archive_try p a ds = decode_into f a ds"
  by (auto simp: extract_archive_try_def Let_def)

lemma extract_archive_returns: "fst (extract_archive p a ds) = None"
  by (simp add: extract_archive_def split: prod.splits option.splits)

text \<open>
  Claim C8. \<open>extract_archive\<close> always returns normally. With a lowercased suffix outside
  \<^verbatim>\<open>.zip\<close>, \<^verbatim>\<open>.rar\<close>, \<^verbatim>\<open>.7z\<close> it writes nothing and prints the warning. With one of the three,
  a failure to open the archive and a failure in the middle of \<^verbatim>\<open>extractall\<close> are both caught
  and printed with the path and the exception, and the destination is left as the decoder
  left it: what was written before the failure stays.
\<close>

theorem extract_archive_contained:
  "fst (extract_archive p a ds) = None
   \<and> (lower (path_suffix (path_name p)) \<notin> set ARCHIVE_EXTS \<longrightarrow>
        extract_archive p a ds = (None, ds, [SkippingUnsupported p]))
   \<and> ((lower (path_suffix (path_name p)), f) \<in> {(''.zip'', Zip), (''.rar'', Rar), (''.7z'', SevenZ)} \<longrightarrow>
        (\<forall>e. open_archive f a = Inl e \<longrightarrow>
           extract_archive p a ds = (None, ds, [FailedToExtract p e]))
      \<and> (\<forall>ms e ds'. open_archive f a = Inr ms \<longrightarrow> extractall ms ds = (Some e, ds') \<longrightarrow>
           extract_archive p a ds = (None, ds', [FailedToExtract p e])))"
proof (intro conjI impI allI)
  show "fst (extract_archive p a ds) = None" by (rule extract_archive_returns)
next
  assume "lower (path_suffix (path_name p)) \<notin> set ARCHIVE_EXTS"
  then show "extract_archive p a ds = (None, ds, [SkippingUnsupported p])"
    by (simp add: extract_archive_def extract_archive_try_unsupported)
next
  fix e
  assume "(lower (path_suffix (path_name p)), f) \<in> {(''.zip'', Zip), (''.rar'', Rar), (''.7z'', SevenZ)}"
    and "open_archive f a = Inl e"
  then show "extract_archive p a ds = (None, ds, [FailedToExtract p e])"
    by (simp add: extract_archive_def extract_archive_try_supported decode_into_def)
next
  fix ms e ds'
  assume "(lower (path_suffix (path_name p)), f) \<in> {(''.zip'', Zip), (''.rar'', Rar), (''.7z'', SevenZ)}"
    and "open_archive f a = Inr ms" and "extractall ms ds = (Some e, ds')"
  then show "extract_archive p a ds = (None, ds', [FailedToExtract p e])"
    by (simp add: extract_archive_def extract_archive_try_supported decode_into_def)
qed

theorem extract_archive_contained_witness:
  "lower (path_suffix (path_name [''notes.txt''])) \<notin> set ARCHIVE_EXTS
   \<and> extract_archive [''notes.txt''] (Some (Blob 0)) [(''d'', Dir [])]
       = (None, [(''d'', Dir [])], [SkippingUnsupported [''notes.txt'']])
   \<and> (lower (path_suffix (path_name [''a.ZIP''])), Zip) \<in> {(''.zip'', Zip), (''.rar'', Rar), (''.7z'', SevenZ)}
   \<and> open_archive Zip (Some (Pack Rar [(''f'', Blob 1)])) = Inl BadArchive
   \<and> extract_archive [''a.ZIP''] (Some (Pack Rar [(''f'', Blob 1)])) [(''d'', Dir [])]
       = (None, [(''d'', Dir [])], [FailedToExtract [''a.ZIP''] BadArchive])
   \<and> open_archive Zip (Some (Pack Zip [(''f'', Blob 1), (''d'', Blob 2), (''g'', Blob 3)]))
       = Inr [(''f'', Blob 1), (''d'', Blob 2), (''g'', Blob 3)]
   \<and> extractall [(''f'', Blob 1), (''d'', Blob 2), (''g'', Blob 3)] [(''d'', Dir [])]
       = (Some IsADirectoryError, [(''d'', Dir []), (''f'', Blob 1)])
   \<and> extract_archive [''a.ZIP''] (Some (Pack Zip [(''f'', Blob 1), (''d'', Blob 2), (''g'', Blob 3)])) [(''d'', Dir [])]
       = (None, [(''d'', Dir []), (''f'', Blob 1)], [FailedToExtract [''a.ZIP''] IsADirectoryError])"
proof -
  have h1: "lower (path_suffix (path_name [''notes.txt''])) \<notin> set ARCHIVE_EXTS" by code_simp
  have h2: "(lower (path_suffix (path_name [''a.ZIP''])), Zip) \<in> {(''.zip'', Zip), (''.rar'', Rar), (''.7z'', SevenZ)}"
    by code_simp
  have h3: "open_archive Zip (Some (Pack Rar [(''f'', Blob 1)])) = Inl BadArchive" by simp
  have h4: "open_archive Zip (Some (Pack Zip [(''f'', Blob 1), (''d'', Blob 2), (''g'', Blob 3)]))
       = Inr [(''f'', Blob 1), (''d'', Blob 2), (''g'', Blob 3)]" by simp
  have h5: "extractall [(''f'', Blob 1), (''d'', Blob 2), (''g'', Blob 3)] [(''d'', Dir [])]
       = (Some IsADirectoryError, [(''d'', Dir []), (''f'', Blob 1)])" by code_simp
  from h1 extract_archive_contained[of "[''notes.txt'']" "Some (Blob 0)" "[(''d'', Dir [])]"]
  have c1: "extract_archive [''notes.txt''] (Some (Blob 0)) [(''d'', Dir [])]
       = (None, [(''d'', Dir [])], [SkippingUnsupported [''notes.txt'']])" by blast
  from h2 h3 extract_archive_contained[of "[''a.ZIP'']" "Some (Pack Rar [(''f'', Blob 1)])" "[(''d'', Dir [])]" Zip]
  have c2: "extract_archive [''a.ZIP''] (Some (Pack Rar [(''f'', Blob 1)])) [(''d'', Dir [])]
       = (None, [(''d'', Dir [])], [FailedToExtract [''a.ZIP''] BadArchive])" by blast
  from h2 h4 h5 extract_archive_contained[of "[''a.ZIP'']"
      "Some (Pack Zip [(''f'', Blob 1), (''d'', Blob 2), (''g'', Blob 3)])" "[(''d'', Dir [])]" Zip]
  have c3: "extract_archive [''a.ZIP''] (Some (Pack Zip [(''f'', Blob 1), (''d'', Blob 2), (''g'', Blob 3)])) [(''d'', Dir [])]
       = (None, [(''d'', Dir []), (''f'', Blob 1)], [FailedToExtract [''a.ZIP''] IsADirectoryError])" by blast
  from h1 c1 h2 h3 c2 h4 h5 c3 show ?thesis by blast
qed

text \<open>
  Claim C2 at a root that holds the directories \<^verbatim>\<open>Runtime\<close> and \<^verbatim>\<open>Docs.txt\<close>, promotional
  files excluded: \<open>copy_daz_root\<close> tests the suffix of every item without asking whether it
  is a file, so the directory \<^verbatim>\<open>Docs.txt\<close> is left out.
\<close>

theorem copy_daz_root_skips_directory:
  "is_dir (Dir [(''a'', Blob 2)])
   \<and> copy_daz_root [(''Runtime'', Dir []), (''Docs.txt'', Dir [(''a'', Blob 2)])] [] False
       = (None, [(''Runtime'', Dir [])])"
  by code_simp

section \<open>Directories survive the unpacker\<close>

lemma lookup_Cons:
  "lookup es (n # p) =
     (case map_of es n of
        None \<Rightarrow> None
      | Some nd \<Rightarrow> if p = [] then Some nd else (case nd of Dir cs \<Rightarrow> lookup cs p | _ \<Rightarrow> None))"
  by (cases p) (auto split: option.splits node.splits)

lemma lookup_snoc:
  "lookup es (p @ [n]) = (case lookup es p of Some (Dir cs) \<Rightarrow> map_of cs n | _ \<Rightarrow> None)"
proof (induction p arbitrary: es)
  case Nil
  then show ?case by simp
next
  case (Cons m p)
  show ?case
    using Cons.IH by (auto simp: lookup_Cons simp del: lookup.simps split: option.splits node.splits)
qed

lemma dir_at_Nil [simp]: "dir_at es []"
  by (simp add: dir_at_def)

lemma dir_at_Cons:
  "dir_at es (n # p) = (case map_of es n of Some (Dir cs) \<Rightarrow> dir_at cs p | _ \<Rightarrow> False)"
  by (auto simp: dir_at_def lookup_Cons split: option.splits node.splits)

lemma dir_at_update_dir:
  assumes "dir_at es q"
    and "\<forall>old q'. map_of es n = Some (Dir old) \<longrightarrow> dir_at old q' \<longrightarrow> dir_at new q'"
  shows "dir_at (AList.update n (Dir new) es) q"
proof (cases q)
  case Nil
  then show ?thesis by simp
next
  case (Cons m q')
  with assms show ?thesis
    by (auto simp: dir_at_Cons update_conv' split: option.splits node.splits)
qed

lemma dir_at_update_file:
  assumes "dir_at es q" and "\<not> dir_at es [n]"
  shows "dir_at (AList.update n nd es) q"
proof (cases q)
  case Nil
  then show ?thesis by simp
next
  case (Cons m q')
  with assms show ?thesis
    by (auto simp: dir_at_Cons update_conv' split: option.splits node.splits)
qed

lemma dir_at_delete_file:
  assumes "dir_at es q" and "\<not> dir_at es [n]"
  shows "dir_at (AList.delete n es) q"
proof (cases q)
  case Nil
  then show ?thesis by simp
next
  case (Cons m q')
  with assms show ?thesis
    by (auto simp: dir_at_Cons delete_conv' split: option.splits node.splits)
qed

lemma extractall_keeps_dirs:
  "dir_at ds p \<Longrightarrow> dir_at (snd (extractall ms ds)) p"
  "dir_at ds p \<Longrightarrow> dir_at (snd (extract_member n nd ds)) p"
proof (induction ms ds and n nd ds arbitrary: p and p rule: extractall_extract_member.induct)
  case (1 ds)
  then show ?case by simp
next
  case (2 m ms ds)
  show ?case
  proof (cases "extract_member (fst m) (snd m) ds")
    case (Pair r ds')
    from "2.IH"(1)[OF "2.prems"] Pair have d: "dir_at ds' p" by simp
    show ?thesis
    proof (cases r)
      case None
      with Pair "2.IH"(2)[OF _ _ d] show ?thesis by simp
    next
      case (Some e)
      with Pair d show ?thesis by simp
    qed
  qed
next
  case (3 n cs ds)
  show ?case
  proof (cases "map_of ds n")
    case None
    then have "\<forall>old q'. map_of ds n = Some (Dir old) \<longrightarrow> dir_at old q' \<longrightarrow> dir_at (snd (extractall cs [])) q'"
      by simp
    with "3.prems" have "dir_at (AList.update n (Dir (snd (extractall cs []))) ds) p"
      by (rule dir_at_update_dir)
    with None show ?thesis
      by (auto split: prod.splits)
  next
    case (Some nd)
    show ?thesis
    proof (cases nd)
      case (Dir old)
      have "\<forall>old' q'. map_of ds n = Some (Dir old') \<longrightarrow> dir_at old' q' \<longrightarrow> dir_at (snd (extractall cs old)) q'"
        using "3.IH"(2)[OF Some Dir] Some Dir by simp
      with "3.prems" have "dir_at (AList.update n (Dir (snd (extractall cs old))) ds) p"
        by (rule dir_at_update_dir)
      with Some Dir show ?thesis
        by (auto split: prod.splits)
    next
      case (Blob b)
      with Some "3.prems" show ?thesis by simp
    next
      case (Pack f xs)
      with Some "3.prems" show ?thesis by simp
    qed
  qed
next
  case (4 n b ds)
  show ?case
  proof (cases "dir_at ds [n]")
    case True
    with "4.prems" show ?thesis by (auto simp: dir_at_Cons split: option.splits node.splits)
  next
    case False
    from dir_at_update_file[OF "4.prems" False] False show ?thesis
      by (auto simp: dir_at_Cons split: option.splits node.splits)
  qed
next
  case (5 n f ms ds)
  show ?case
  proof (cases "dir_at ds [n]")
    case True
    with "5.prems" show ?thesis by (auto simp: dir_at_Cons split: option.splits node.splits)
  next
    case False
    from dir_at_update_file[OF "5.prems" False] False show ?thesis
      by (auto simp: dir_at_Cons split: option.splits node.splits)
  qed
qed

lemma extractall_keeps_dirs_pair:
  "extractall ms ds = (r, ds') \<Longrightarrow> dir_at ds p \<Longrightarrow> dir_at ds' p"
  using extractall_keeps_dirs(1)[of ds p ms] by simp

lemma decode_into_keeps_dirs:
  "dir_at ds p \<Longrightarrow> dir_at (fst (snd (decode_into f nd ds))) p"
  by (auto simp: decode_into_def split: prod.splits sum.splits dest: extractall_keeps_dirs_pair)

lemma extract_archive_try_keeps_dirs:
  "dir_at ds p \<Longrightarrow> dir_at (fst (snd (extract_archive_try a nd ds))) p"
  by (simp add: extract_archive_try_def Let_def decode_into_keeps_dirs)

lemma extract_archive_keeps_dirs:
  "dir_at ds p \<Longrightarrow> dir_at (fst (snd (extract_archive a nd ds))) p"
  using extract_archive_try_keeps_dirs[of ds p a nd]
  by (auto simp: extract_archive_def split: prod.splits option.splits)

lemma modify_dir_keeps_dirs:
  assumes "\<And>cs q. lookup es path = Some (Dir cs) \<Longrightarrow> dir_at cs q \<Longrightarrow> dir_at (f cs) q"
    and "dir_at es q"
  shows "dir_at (modify_dir path f es) q"
  using assms
proof (induction path arbitrary: es q)
  case Nil
  then show ?case by simp
next
  case (Cons n p)
  show ?case
  proof (cases "map_of es n")
    case None
    with Cons.prems show ?thesis by simp
  next
    case (Some nd)
    show ?thesis
    proof (cases nd)
      case (Dir cs0)
      have lk: "lookup es (n # p) = lookup cs0 p"
        using Some Dir by (cases p) (simp_all add: lookup_Cons)
      have "\<forall>old q'. map_of es n = Some (Dir old) \<longrightarrow> dir_at old q' \<longrightarrow> dir_at (modify_dir p f cs0) q'"
      proof (intro allI impI)
        fix old q'
        assume "map_of es n = Some (Dir old)" and d: "dir_at old q'"
        with Some Dir have "old = cs0" by simp
        with d show "dir_at (modify_dir p f cs0) q'"
          using Cons.IH[of cs0 q'] Cons.prems(1) lk by simp
      qed
      with Cons.prems(2) have "dir_at (AList.update n (Dir (modify_dir p f cs0)) es) q"
        by (rule dir_at_update_dir)
      with Some Dir show ?thesis by simp
    next
      case (Blob b)
      with Some Cons.prems show ?thesis by simp
    next
      case (Pack g xs)
      with Some Cons.prems show ?thesis by simp
    qed
  qed
qed

lemma unlink_keeps_dirs:
  assumes "dir_at es q"
  shows "dir_at (snd (unlink a es)) q"
proof (cases "lookup es a")
  case None
  with assms show ?thesis by (simp add: unlink_def)
next
  case (Some nd)
  show ?thesis
  proof (cases "is_dir nd")
    case True
    with Some assms show ?thesis by (cases nd) (simp_all add: unlink_def)
  next
    case False
    with Some have ane: "a \<noteq> []" by (cases a) auto
    then have a: "a = butlast a @ [last a]" by simp
    have res: "snd (unlink a es) = modify_dir (butlast a) (AList.delete (last a)) es"
      using Some False ane by (cases nd) (simp_all add: unlink_def path_name_def)
    have "\<And>cs q. lookup es (butlast a) = Some (Dir cs) \<Longrightarrow> dir_at cs q \<Longrightarrow> dir_at (AList.delete (last a) cs) q"
    proof -
      fix cs q
      assume l: "lookup es (butlast a) = Some (Dir cs)" and d: "dir_at cs q"
      from Some a have "lookup es (butlast a @ [last a]) = Some nd" by simp
      with l have "map_of cs (last a) = Some nd" by (simp add: lookup_snoc)
      with False have "\<not> dir_at cs [last a]" by (cases nd) (simp_all add: dir_at_def)
      with d show "dir_at (AList.delete (last a) cs) q" by (rule dir_at_delete_file)
    qed
    from modify_dir_keeps_dirs[OF this assms] res show ?thesis by simp
  qed
qed

lemma unpack_one_keeps_dirs:
  assumes "dir_at es q"
  shows "dir_at (fst (unpack_one a es)) q"
proof -
  obtain r cs' out where e: "extract_archive a (lookup es a) (the_dir (lookup es (butlast a))) = (r, cs', out)"
    by (cases "extract_archive a (lookup es a) (the_dir (lookup es (butlast a)))") auto
  have "\<And>cs q. lookup es (butlast a) = Some (Dir cs) \<Longrightarrow> dir_at cs q \<Longrightarrow> dir_at ((\<lambda>cs. cs') cs) q"
  proof -
    fix cs q
    assume "lookup es (butlast a) = Some (Dir cs)" and "dir_at cs q"
    with extract_archive_keeps_dirs[of cs q a "lookup es a"] e show "dir_at ((\<lambda>cs. cs') cs) q" by simp
  qed
  from modify_dir_keeps_dirs[OF this assms]
  have "dir_at (modify_dir (butlast a) (\<lambda>cs. cs') es) q" .
  then have "dir_at (snd (unlink a (modify_dir (butlast a) (\<lambda>cs. cs') es))) q" by (rule unlink_keeps_dirs)
  with e show ?thesis by (auto simp: unpack_one_def split: prod.splits option.splits)
qed

lemma unpack_each_keeps_dirs:
  "dir_at es q \<Longrightarrow> dir_at (fst (unpack_each as es out)) q"
proof (induction as arbitrary: es out)
  case Nil
  then show ?case by simp
next
  case (Cons a as)
  obtain es' out' where u: "unpack_one a es = (es', out')" by (cases "unpack_one a es") auto
  with unpack_one_keeps_dirs[OF Cons.prems, of a] have "dir_at es' q" by simp
  from Cons.IH[OF this] u show ?case by simp
qed

lemma dir_at_in_rglob: "p \<noteq> [] \<Longrightarrow> dir_at es p \<Longrightarrow> p \<in> set (rglob es)"
  by (auto simp: dir_at_def split: option.splits node.splits intro: lookup_in_rglob)

lemma unpack_loop_Some_no_dir:
  assumes "p \<noteq> []" and "is_archive_path p" and ret: "unpack_loop i es out = Some y"
  shows "\<not> dir_at es p"
proof (rule unpack_loop.raw_induct[where P="\<lambda>i es out y. \<not> dir_at es p", OF _ ret], goal_cases)
  case (1 loop i es out y)
  show ?case
  proof
    assume d: "dir_at es p"
    with assms(1,2) have "p \<in> set (filter is_archive_path (rglob es))"
      by (simp add: dir_at_in_rglob)
    then have ne: "filter is_archive_path (rglob es) \<noteq> []" by (metis empty_iff list.set(1))
    obtain es' out' where u: "unpack_each (filter is_archive_path (rglob es)) es
        (out @ [PassFound i (length (filter is_archive_path (rglob es)))]) = (es', out')"
      by (cases "unpack_each (filter is_archive_path (rglob es)) es
        (out @ [PassFound i (length (filter is_archive_path (rglob es)))])") auto
    with "1"(2) ne have l: "loop (Suc i) es' out' = Some y" by (simp add: Let_def)
    then have "\<not> dir_at es' p" by (rule "1"(1))
    moreover from unpack_each_keeps_dirs[OF d] u have "dir_at es' p" by (metis fst_conv)
    ultimately show False by simp
  qed
qed

lemma unpack_loop_never_returns:
  assumes "p \<noteq> []" and "is_archive_path p" and "dir_at es p"
  shows "unpack_loop i es out = None"
proof (cases "unpack_loop i es out")
  case None
  then show ?thesis .
next
  case (Some y)
  from unpack_loop_Some_no_dir[OF assms(1,2) Some] assms(3) show ?thesis by simp
qed

section \<open>Termination of the unpacker\<close>

lemma lower_char_dot: "lower_char c = CHR ''.'' \<longleftrightarrow> c = CHR ''.''"
proof -
  have "of_char (lower_char c) = (46::nat) \<longleftrightarrow> of_char c = (46::nat)"
    by (auto simp: lower_char_def Let_def)
  moreover have "of_char (CHR ''.'') = (46::nat)" by simp
  ultimately show ?thesis by (metis of_char_eq_iff)
qed

lemma lower_char_dot_id [simp]: "lower_char (CHR ''.'') = CHR ''.''"
  by (simp add: lower_char_dot)

lemma length_lower [simp]: "length (lower s) = length s"
  by (simp add: lower_def)

lemma lower_Nil_iff [simp]: "lower s = [] \<longleftrightarrow> s = []"
  by (simp add: lower_def)

lemma dot_in_lower: "CHR ''.'' \<in> set (lower nm) \<longleftrightarrow> CHR ''.'' \<in> set nm"
proof
  assume "CHR ''.'' \<in> set (lower nm)"
  then obtain c where "c \<in> set nm" "lower_char c = CHR ''.''" by (auto simp: lower_def)
  then show "CHR ''.'' \<in> set nm" by (simp add: lower_char_dot)
next
  assume "CHR ''.'' \<in> set nm"
  then have "lower_char (CHR ''.'') \<in> lower_char ` set nm" by (rule imageI)
  then show "CHR ''.'' \<in> set (lower nm)" by (simp add: lower_def)
qed

lemma after_dot_lower: "after_dot (lower nm) = lower (after_dot nm)"
  by (simp add: after_dot_def lower_def rev_map takeWhile_map comp_def lower_char_dot)

lemma path_suffix_lower: "path_suffix (lower nm) = lower (path_suffix nm)"
proof (cases "CHR ''.'' \<in> set nm \<and> Suc (length (after_dot nm)) < length nm \<and> after_dot nm \<noteq> []")
  case True
  then have "path_suffix nm = CHR ''.'' # after_dot nm" by (simp add: path_suffix_def)
  moreover from True have "path_suffix (lower nm) = CHR ''.'' # lower (after_dot nm)"
    by (simp add: path_suffix_def dot_in_lower after_dot_lower)
  ultimately show ?thesis by (simp add: lower_def)
next
  case False
  then have "path_suffix nm = []" by (auto simp: path_suffix_def)
  moreover from False have "path_suffix (lower nm) = []"
    by (auto simp: path_suffix_def dot_in_lower after_dot_lower)
  ultimately show ?thesis by (simp add: lower_def)
qed

lemma after_dot_append:
  assumes "CHR ''.'' \<notin> set e"
  shows "after_dot (stem @ CHR ''.'' # e) = e"
proof -
  have "rev (stem @ CHR ''.'' # e) = rev e @ (CHR ''.'' # rev stem)" by simp
  moreover have "takeWhile (\<lambda>c. c \<noteq> CHR ''.'') (rev e @ (CHR ''.'' # rev stem)) = rev e"
  proof -
    have "\<And>x. x \<in> set (rev e) \<Longrightarrow> x \<noteq> CHR ''.''" using assms by auto
    then have "takeWhile (\<lambda>c. c \<noteq> CHR ''.'') (rev e @ (CHR ''.'' # rev stem))
        = rev e @ takeWhile (\<lambda>c. c \<noteq> CHR ''.'') (CHR ''.'' # rev stem)"
      by (rule takeWhile_append2)
    then show ?thesis by simp
  qed
  ultimately show ?thesis by (simp add: after_dot_def)
qed

lemma path_suffix_append:
  assumes "stem \<noteq> []" and "e \<noteq> []" and "CHR ''.'' \<notin> set e"
  shows "path_suffix (stem @ CHR ''.'' # e) = CHR ''.'' # e"
proof -
  have a: "after_dot (stem @ CHR ''.'' # e) = e" using assms(3) by (rule after_dot_append)
  have "0 < length stem" using assms(1) by simp
  then have "Suc (length e) < length (stem @ CHR ''.'' # e)" by simp
  with a assms(2) show ?thesis by (simp add: path_suffix_def)
qed

lemma archive_ext_suffix:
  assumes "stem \<noteq> []" and "ext \<in> set ARCHIVE_EXTS" and "lower nm = stem @ ext"
  shows "lower (path_suffix nm) = ext"
proof -
  from assms(2) obtain e where e: "ext = CHR ''.'' # e" "e \<noteq> []" "CHR ''.'' \<notin> set e"
    by (auto simp: ARCHIVE_EXTS_def)
  have "lower (path_suffix nm) = path_suffix (lower nm)" by (simp add: path_suffix_lower)
  also have "\<dots> = path_suffix (stem @ CHR ''.'' # e)" using assms(3) e(1) by simp
  also have "\<dots> = CHR ''.'' # e" using assms(1) e(2,3) by (rule path_suffix_append)
  finally show ?thesis using e(1) by simp
qed


lemma archive_named_is_archive_path:
  assumes "p \<noteq> []" and "stem \<noteq> []" and "ext \<in> set ARCHIVE_EXTS" and "lower (last p) = stem @ ext"
  shows "is_archive_path p"
  using assms archive_ext_suffix[of stem ext "last p"]
  by (simp add: is_archive_path_def path_name_def)

text \<open>
  Claim C3 as stated fails on a directory named \<^verbatim>\<open>.zip\<close>: the name ends in \<^verbatim>\<open>.zip\<close>, but
  \<^verbatim>\<open>Path.suffix\<close> of a name that starts with its only dot is empty, the scan finds nothing and
  the unpacker returns after one pass.
\<close>

theorem unpacker_stalls_on_dotzip_counterexample:
  "dir_at [(''.zip'', Dir [])] [''.zip'']
   \<and> lower ''.zip'' = [] @ ''.zip''
   \<and> extract_all_archives_recursively [(''.zip'', Dir [])] = Some ([(''.zip'', Dir [])], [NoMoreArchives 0])"
  by code_simp

text \<open>
  Claim C3, amended. When the tree holds a directory whose lowercased name is a non-empty
  stem followed by \<^verbatim>\<open>.zip\<close>, \<^verbatim>\<open>.rar\<close> or \<^verbatim>\<open>.7z\<close>, the loop of the unpacker never reaches its
  \<^verbatim>\<open>break\<close>: the scan lists the directory in every pass, neither the extraction nor the
  \<^verbatim>\<open>unlink\<close> (whose exceptions are caught) removes it, and no other step removes a directory.
\<close>

theorem unpacker_never_ends_on_archive_named_directory:
  assumes "p \<noteq> []" and "dir_at es p"
    and "lower (last p) = stem @ ext" and "stem \<noteq> []" and "ext \<in> set ARCHIVE_EXTS"
  shows "extract_all_archives_recursively es = None"
proof -
  from assms have "is_archive_path p" by (simp add: archive_named_is_archive_path)
  with assms(1,2) show ?thesis
    unfolding extract_all_archives_recursively_def by (simp add: unpack_loop_never_returns)
qed

theorem unpacker_never_ends_on_archive_named_directory_witness:
  "[''Runtime'', ''Maps.7Z''] \<noteq> []
   \<and> dir_at [(''Runtime'', Dir [(''Maps.7Z'', Dir [(''a.png'', Blob 1)])])] [''Runtime'', ''Maps.7Z'']
   \<and> lower (last [''Runtime'', ''Maps.7Z'']) = ''maps'' @ ''.7z''
   \<and> ''maps'' \<noteq> [] \<and> ''.7z'' \<in> set ARCHIVE_EXTS
   \<and> extract_all_archives_recursively [(''Runtime'', Dir [(''Maps.7Z'', Dir [(''a.png'', Blob 1)])])] = None"
proof -
  have h1: "[''Runtime'', ''Maps.7Z''] \<noteq> []" by simp
  have h2: "dir_at [(''Runtime'', Dir [(''Maps.7Z'', Dir [(''a.png'', Blob 1)])])] [''Runtime'', ''Maps.7Z'']"
    by code_simp
  have h3: "lower (last [''Runtime'', ''Maps.7Z'']) = ''maps'' @ ''.7z''" by code_simp
  have h4: "''maps'' \<noteq> []" by simp
  have h5: "''.7z'' \<in> set ARCHIVE_EXTS" by code_simp
  from unpacker_never_ends_on_archive_named_directory[OF h1 h2 h3 h4 h5] h1 h2 h3 h4 h5
  show ?thesis by blast
qed

lemma unpacker_nothing_to_do:
  "filter is_archive_path (rglob es) = [] \<Longrightarrow>
     extract_all_archives_recursively es = Some (es, [NoMoreArchives 0])"
  unfolding extract_all_archives_recursively_def
  by (subst unpack_loop.simps) simp

text \<open>
  Claim C7 at a tree that holds the empty directory \<^verbatim>\<open>x.zip\<close> and nothing else: no file of
  the tree has an archive suffix, and the unpacker never returns.
\<close>

theorem unpacker_hangs_without_archive_files:
  "filter (\<lambda>p. is_archive_path p \<and> \<not> dir_at [(''x.zip'', Dir [])] p) (rglob [(''x.zip'', Dir [])]) = []
   \<and> extract_all_archives_recursively [(''x.zip'', Dir [])] = None"
proof
  show "filter (\<lambda>p. is_archive_path p \<and> \<not> dir_at [(''x.zip'', Dir [])] p) (rglob [(''x.zip'', Dir [])]) = []"
    by code_simp
next
  have "[''x.zip''] \<noteq> []" by simp
  moreover have "is_archive_path [''x.zip'']" by code_simp
  moreover have "dir_at [(''x.zip'', Dir [])] [''x.zip'']" by code_simp
  ultimately show "extract_all_archives_recursively [(''x.zip'', Dir [])] = None"
    unfolding extract_all_archives_recursively_def by (rule unpack_loop_never_returns)
qed

section \<open>What the unpacker leaves behind\<close>










subsection \<open>Trees without name clashes\<close>




lemma all_names_append [simp]: "all_names (xs @ ys) = all_names xs @ all_names ys"
  by (induction xs) simp_all

lemma dirs_ok_append [simp]: "dirs_ok (xs @ ys) = (dirs_ok xs \<and> dirs_ok ys)"
  by (induction xs) simp_all

lemma all_leaves_append [simp]: "all_leaves (xs @ ys) = all_leaves xs @ all_leaves ys"
  by (induction xs) simp_all

lemma pending_append [simp]: "pending (xs @ ys) = pending xs + pending ys"
  by (induction xs) simp_all












lemma delete_append: "AList.delete k (xs @ ys) = AList.delete k xs @ AList.delete k ys"
  by (induction xs) auto

lemma delete_split:
  "n \<notin> fst ` set xs \<Longrightarrow> n \<notin> fst ` set ys \<Longrightarrow> AList.delete n (xs @ (n, nd) # ys @ zs) = xs @ ys @ AList.delete n zs"
  by (simp add: delete_append)
































section \<open>The orchestrator\<close>



text \<open>
  Claim C1 at an archive that holds \<^verbatim>\<open>Runtime/f\<close>, in merge mode with \<^verbatim>\<open>keep_temp\<close> set: one run of
  the sequence of section 4.5 leaves one scratch directory, \<open>process_archive\<close> leaves three,
  one for each of its three blocks. The output directory is the same.
\<close>

theorem process_archive_keeps_three_scratch_directories:
  "map_option (\<lambda>r. (outdir (snd r), temps (snd r)))
     (single_sequence ''p.zip'' (Pack Zip [(''Runtime'', Dir [(''f'', Blob 1)])]) False True True
        \<lparr>outdir = [], temps = [], console = []\<rparr>)
     = Some ([(''Content'', Dir [(''Runtime'', Dir [(''f'', Blob 1)])])],
             [[(''Runtime'', Dir [(''f'', Blob 1)])]])
   \<and> map_option (\<lambda>r. (outdir (snd r), temps (snd r)))
     (process_archive ''p.zip'' (Pack Zip [(''Runtime'', Dir [(''f'', Blob 1)])]) False True True
        \<lparr>outdir = [], temps = [], console = []\<rparr>)
     = Some ([(''Content'', Dir [(''Runtime'', Dir [(''f'', Blob 1)])])],
             [[(''Runtime'', Dir [(''f'', Blob 1)])], [(''Runtime'', Dir [(''f'', Blob 1)])],
              [(''Runtime'', Dir [(''f'', Blob 1)])]])"
  by code_simp

section \<open>Running a sequence of copies twice\<close>

lemma copy_children_run:
  "copy_children cs ds = (True \<in> set (fst (run (map act_of cs) ds)), snd (run (map act_of cs) ds))"
proof (induction cs arbitrary: ds)
  case Nil
  then show ?case by simp
next
  case (Cons c cs)
  obtain n nd where c: "c = (n, nd)" by (cases c)
  show ?case
  proof (cases nd)
    case (Blob b)
    with c Cons.IH show ?thesis by (auto split: prod.splits)
  next
    case (Pack f ms)
    with c Cons.IH show ?thesis by (auto split: prod.splits)
  next
    case (Dir xs)
    with c Cons.IH show ?thesis by (auto simp del: copytree.simps split: prod.splits)
  qed
qed

lemma step_flag: "fst (step a ds) = fst (step_val a (map_of ds (key a)))"
proof (cases a)
  case (Put n f)
  then show ?thesis by (auto simp: copy2_def split: option.splits node.splits)
next
  case (PutPlain n f)
  then show ?thesis by (auto split: option.splits node.splits)
next
  case (Tree n cs)
  then show ?thesis by (auto simp: copy_children_run split: option.splits node.splits prod.splits)
qed

lemma step_map: "map_of (snd (step a ds)) = (map_of ds)(key a := snd (step_val a (map_of ds (key a))))"
proof (cases a)
  case (Put n f)
  then show ?thesis by (auto simp: copy2_def update_conv' split: option.splits node.splits)
next
  case (PutPlain n f)
  then show ?thesis by (auto simp: update_conv' split: option.splits node.splits)
next
  case (Tree n cs)
  then show ?thesis by (auto simp: copy_children_run update_conv' split: option.splits node.splits prod.splits)
qed

lemma step_keys:
  "key a \<in> fst ` set ds \<Longrightarrow> map fst (snd (step a ds)) = map fst ds"
proof (cases a)
  case (Put n f)
  assume "key a \<in> fst ` set ds"
  with Put show ?thesis
    by (auto simp: copy2_def update_keys split: option.splits node.splits)
next
  case (PutPlain n f)
  assume "key a \<in> fst ` set ds"
  with PutPlain show ?thesis by (auto simp: update_keys split: option.splits node.splits)
next
  case (Tree n cs)
  assume "key a \<in> fst ` set ds"
  with Tree show ?thesis
    by (auto simp: update_keys split: option.splits node.splits prod.splits)
qed

lemma run_Cons_fst: "fst (run (a # as) ds) = fst (step a ds) # fst (run as (snd (step a ds)))"
  by (simp split: prod.splits)

lemma run_Cons_snd: "snd (run (a # as) ds) = snd (run as (snd (step a ds)))"
  by (simp split: prod.splits)

lemma run_val_Cons_fst:
  "fst (run_val (a # as) x) = fst (step_val a x) # fst (run_val as (snd (step_val a x)))"
  by (simp split: prod.splits)

lemma run_val_Cons_snd: "snd (run_val (a # as) x) = snd (run_val as (snd (step_val a x)))"
  by (simp split: prod.splits)

lemma step_val_Some: "snd (step_val a x) \<noteq> None"
  by (cases a) (auto split: option.splits node.splits)

lemma step_dom: "fst ` set (snd (step a ds)) = insert (key a) (fst ` set ds)"
proof -
  have "dom (map_of (snd (step a ds))) = insert (key a) (dom (map_of ds))"
    using step_val_Some[of a "map_of ds (key a)"] by (auto simp: step_map)
  then show ?thesis by (simp add: dom_map_of_conv_image_fst)
qed

lemma run_dom: "fst ` set (snd (run as ds)) = key ` set as \<union> fst ` set ds"
proof (induction as arbitrary: ds)
  case Nil
  then show ?case by simp
next
  case (Cons a as)
  have "fst ` set (snd (run (a # as) ds)) = key ` set as \<union> fst ` set (snd (step a ds))"
    using Cons.IH[of "snd (step a ds)"] by (simp only: run_Cons_snd)
  also have "\<dots> = key ` set as \<union> insert (key a) (fst ` set ds)" by (simp only: step_dom)
  finally show ?case by auto
qed

lemma run_keys:
  "key ` set as \<subseteq> fst ` set ds \<Longrightarrow> map fst (snd (run as ds)) = map fst ds"
proof (induction as arbitrary: ds)
  case Nil
  then show ?case by simp
next
  case (Cons a as)
  from Cons.prems have k: "key a \<in> fst ` set ds" by simp
  then have m: "map fst (snd (step a ds)) = map fst ds" by (rule step_keys)
  then have "fst ` set (snd (step a ds)) = fst ` set ds" by (metis list.set_map)
  with Cons.prems have "key ` set as \<subseteq> fst ` set (snd (step a ds))" by simp
  from Cons.IH[OF this] m show ?case by (simp only: run_Cons_snd)
qed

lemma step_distinct: "distinct (map fst ds) \<Longrightarrow> distinct (map fst (snd (step a ds)))"
proof (cases a)
  case (Put n f)
  assume "distinct (map fst ds)"
  with Put show ?thesis
    by (auto simp: copy2_def distinct_update split: option.splits node.splits)
next
  case (PutPlain n f)
  assume "distinct (map fst ds)"
  with PutPlain show ?thesis by (auto simp: distinct_update split: option.splits node.splits)
next
  case (Tree n cs)
  assume "distinct (map fst ds)"
  with Tree show ?thesis
    by (auto simp: distinct_update split: option.splits node.splits prod.splits)
qed

lemma run_distinct: "distinct (map fst ds) \<Longrightarrow> distinct (map fst (snd (run as ds)))"
proof (induction as arbitrary: ds)
  case Nil
  then show ?case by simp
next
  case (Cons a as)
  from step_distinct[OF Cons.prems, of a] have "distinct (map fst (snd (step a ds)))" .
  from Cons.IH[OF this] show ?case by (simp only: run_Cons_snd)
qed

lemma run_map:
  "map_of (snd (run as ds)) k = snd (run_val (filter (\<lambda>a. key a = k) as) (map_of ds k))"
proof (induction as arbitrary: ds)
  case Nil
  then show ?case by simp
next
  case (Cons a as)
  have m: "map_of (snd (step a ds)) = (map_of ds)(key a := snd (step_val a (map_of ds (key a))))"
    by (rule step_map)
  have "map_of (snd (run (a # as) ds)) k
      = snd (run_val (filter (\<lambda>a. key a = k) as) (map_of (snd (step a ds)) k))"
    using Cons.IH[of "snd (step a ds)"] by (simp only: run_Cons_snd)
  also have "\<dots> = snd (run_val (filter (\<lambda>a. key a = k) (a # as)) (map_of ds k))"
  proof (cases "key a = k")
    case True
    then show ?thesis by (simp add: m run_val_Cons_snd del: run_val.simps)
  next
    case False
    then show ?thesis by (simp add: m del: run_val.simps)
  qed
  finally show ?case .
qed

lemma run_flags_cong:
  assumes "\<And>k. fst (run_val (filter (\<lambda>a. key a = k) as) (map_of ds k))
             = fst (run_val (filter (\<lambda>a. key a = k) as) (map_of T k))"
  shows "fst (run as ds) = fst (run as T)"
  using assms
proof (induction as arbitrary: ds T)
  case Nil
  then show ?case by simp
next
  case (Cons a as)
  have m1: "map_of (snd (step a ds)) = (map_of ds)(key a := snd (step_val a (map_of ds (key a))))"
    by (rule step_map)
  have m2: "map_of (snd (step a T)) = (map_of T)(key a := snd (step_val a (map_of T (key a))))"
    by (rule step_map)
  have hk: "fst (run_val (a # filter (\<lambda>b. key b = key a) as) (map_of ds (key a)))
      = fst (run_val (a # filter (\<lambda>b. key b = key a) as) (map_of T (key a)))"
    using Cons.prems[of "key a"] by simp
  then have fg: "fst (step a ds) = fst (step a T)"
    by (simp only: run_val_Cons_fst step_flag) simp
  have "fst (run_val (filter (\<lambda>b. key b = k) as) (map_of (snd (step a ds)) k))
      = fst (run_val (filter (\<lambda>b. key b = k) as) (map_of (snd (step a T)) k))" for k
  proof (cases "k = key a")
    case True
    from hk have "fst (run_val (filter (\<lambda>b. key b = key a) as) (snd (step_val a (map_of ds (key a)))))
      = fst (run_val (filter (\<lambda>b. key b = key a) as) (snd (step_val a (map_of T (key a)))))"
      by (simp only: run_val_Cons_fst) simp
    with True show ?thesis by (simp add: m1 m2)
  next
    case False
    with Cons.prems[of k] show ?thesis by (simp add: m1 m2 del: run_val.simps)
  qed
  from Cons.IH[OF this] fg show ?case by (simp only: run_Cons_fst)
qed

lemma alist_eqI:
  "distinct (map fst xs) \<Longrightarrow> map fst xs = map fst ys \<Longrightarrow> map_of xs = map_of ys \<Longrightarrow> xs = ys"
proof (induction xs arbitrary: ys)
  case Nil
  then show ?case by simp
next
  case (Cons x xs)
  from Cons.prems(2) obtain y ys' where ys: "ys = y # ys'" "fst x = fst y" "map fst xs = map fst ys'"
    by (cases ys) auto
  have a1: "map_of (x # xs) (fst x) = Some (snd x)" by (cases x) simp
  have a2: "map_of (y # ys') (fst x) = Some (snd y)" using ys(2) by (cases y) simp
  have "map_of (x # xs) (fst x) = map_of (y # ys') (fst x)" using Cons.prems(3) ys(1) by metis
  with a1 a2 have "snd x = snd y" by (simp only: option.inject)
  with ys(2) have xy: "x = y" by (simp add: prod_eq_iff)
  have "map_of xs = map_of ys'"
  proof
    fix k
    show "map_of xs k = map_of ys' k"
    proof (cases "k = fst x")
      case True
      from Cons.prems(1) have nx: "fst x \<notin> fst ` set xs" by simp
      then have "map_of xs k = None" using True by (simp add: map_of_eq_None_iff)
      moreover from nx ys(3) have "fst x \<notin> fst ` set ys'" by (metis list.set_map)
      then have "map_of ys' k = None" using True by (simp add: map_of_eq_None_iff)
      ultimately show ?thesis by simp
    next
      case False
      have "map_of (x # xs) k = map_of ys k" using Cons.prems(3) by metis
      then have "map_of (x # xs) k = map_of (x # ys') k" using ys(1) xy by (simp only:)
      with False show ?thesis by (cases x) simp
    qed
  qed
  with Cons.IH[of ys'] Cons.prems(1) ys(3) have "xs = ys'" by simp
  with xy ys show ?case by simp
qed

lemma run_idem_from_keys:
  assumes V: "\<And>k fl x'. run_val (filter (\<lambda>a. key a = k) as) (map_of ds k) = (fl, x') \<Longrightarrow>
                run_val (filter (\<lambda>a. key a = k) as) x' = (fl, x')"
    and d: "distinct (map fst ds)"
    and r: "run as ds = (fl, ds')"
  shows "run as ds' = (fl, ds')"
proof -
  have m: "map_of ds' k = snd (run_val (filter (\<lambda>a. key a = k) as) (map_of ds k))" for k
    using run_map[of as ds k] r by simp
  have v: "run_val (filter (\<lambda>a. key a = k) as) (map_of ds' k)
      = run_val (filter (\<lambda>a. key a = k) as) (map_of ds k)" for k
    using V[of k] m[of k] by (cases "run_val (filter (\<lambda>a. key a = k) as) (map_of ds k)") simp
  have flags: "fst (run as ds') = fst (run as ds)"
    by (rule run_flags_cong) (simp add: v)
  have vals: "map_of (snd (run as ds')) = map_of ds'"
  proof
    fix k
    show "map_of (snd (run as ds')) k = map_of ds' k"
      using run_map[of as ds' k] v[of k] m[of k] by simp
  qed
  have "key ` set as \<subseteq> fst ` set ds'" using run_dom[of as ds] r by simp
  then have keys: "map fst (snd (run as ds')) = map fst ds'" by (rule run_keys)
  have "distinct (map fst ds')" using run_distinct[OF d, of as] r by simp
  then have "distinct (map fst (snd (run as ds')))" using keys by simp
  from alist_eqI[OF this keys vals] flags r show ?thesis
    by (cases "run as ds'") simp
qed

lemma well_formed_distinct: "well_formed es \<Longrightarrow> distinct (map fst es)"
  by (induction es) auto

lemma well_formed_sub: "well_formed es \<Longrightarrow> map_of es k = Some (Dir cs) \<Longrightarrow> well_formed cs"
proof (induction es)
  case Nil
  then show ?case by simp
next
  case (Cons e es)
  then show ?case by (cases e) (auto split: if_splits)
qed

lemma length_run: "length (fst (run as ds)) = length as"
  by (induction as arbitrary: ds) (simp_all add: run_Cons_fst del: run.simps(2))

lemma run_append_fst:
  "fst (run (as @ bs) ds) = fst (run as ds) @ fst (run bs (snd (run as ds)))"
  by (induction as arbitrary: ds) (simp_all add: run_Cons_fst run_Cons_snd del: run.simps(2))

lemma run_append_snd:
  "snd (run (as @ bs) ds) = snd (run bs (snd (run as ds)))"
  by (induction as arbitrary: ds) (simp_all add: run_Cons_snd del: run.simps(2))

lemma step_val_dir:
  "step_val a (Some (Dir es)) = (hd (regroup [a] (fst (run (tr a) es))), Some (Dir (snd (run (tr a) es))))"
proof (cases a)
  case (Put n f)
  then show ?thesis by (auto split: option.splits node.splits)
next
  case (PutPlain n f)
  then show ?thesis by simp
next
  case (Tree n cs)
  have "length (fst (run (map act_of cs) es)) = length cs" by (simp add: length_run)
  with Tree show ?thesis by simp
qed

lemma regroup_Cons:
  "regroup (a # A) fl = hd (regroup [a] (take (length (tr a)) fl)) # regroup A (drop (length (tr a)) fl)"
  by (cases a) (auto simp: drop_Suc hd_take)

lemma run_val_dir:
  "run_val A (Some (Dir es)) = (regroup A (fst (run (inner A) es)), Some (Dir (snd (run (inner A) es))))"
proof (induction A arbitrary: es)
  case Nil
  then show ?case by (simp add: inner_def)
next
  case (Cons a A)
  have i: "inner (a # A) = tr a @ inner A" by (simp add: inner_def)
  have l: "length (fst (run (tr a) es)) = length (tr a)" by (rule length_run)
  have "run_val (a # A) (Some (Dir es))
      = (hd (regroup [a] (fst (run (tr a) es))) # regroup A (fst (run (inner A) (snd (run (tr a) es)))),
         Some (Dir (snd (run (inner A) (snd (run (tr a) es))))))"
    by (simp add: step_val_dir Cons.IH del: step_val.simps regroup.simps)
  also have "\<dots> = (regroup (a # A) (fst (run (inner (a # A)) es)), Some (Dir (snd (run (inner (a # A)) es))))"
    by (simp add: i run_append_fst run_append_snd regroup_Cons[of a A] l del: regroup.simps)
  finally show ?case .
qed

lemma run_val_file:
  assumes "is_file g" and "\<forall>a\<in>set A. proper a"
  shows "run_val A (Some g) = (map is_tree A, Some (last_file A g)) \<and> is_file (last_file A g)"
  using assms
proof (induction A arbitrary: g)
  case Nil
  then show ?case by simp
next
  case (Cons a A)
  show ?case
  proof (cases a)
    case (Put n f)
    with Cons.prems have "is_file f" by simp
    from Cons.IH[OF this] Cons.prems Put show ?thesis by (cases g) simp_all
  next
    case (PutPlain n f)
    with Cons.prems have "is_file f" by simp
    from Cons.IH[OF this] Cons.prems PutPlain show ?thesis by (cases g) simp_all
  next
    case (Tree n cs)
    from Cons.IH[OF Cons.prems(1)] Cons.prems Tree show ?thesis by (cases g) simp_all
  qed
qed

lemma last_file_idem: "last_file A (last_file A g) = last_file A g"
proof (induction A arbitrary: g)
  case Nil
  then show ?case by simp
next
  case (Cons a A)
  then show ?case by (cases a) simp_all
qed

lemma run_val_idem:
  assumes IH: "\<And>es. well_formed es \<Longrightarrow> run (inner A) (snd (run (inner A) es)) = run (inner A) es"
    and p: "\<forall>a\<in>set A. proper a"
    and w: "\<And>es. x = Some (Dir es) \<Longrightarrow> well_formed es"
  shows "run_val A (snd (run_val A x)) = run_val A x"
proof -
  have dcase: "run_val A (snd (run_val A (Some (Dir es)))) = run_val A (Some (Dir es))"
    if "well_formed es" for es
    using IH[OF that] by (simp add: run_val_dir)
  have fcase: "run_val A (snd (run_val A (Some g))) = run_val A (Some g)" if "is_file g" for g
  proof -
    from run_val_file[OF that p] have 1: "run_val A (Some g) = (map is_tree A, Some (last_file A g))"
      and 2: "is_file (last_file A g)" by simp_all
    from run_val_file[OF 2 p] have "run_val A (Some (last_file A g)) = (map is_tree A, Some (last_file A (last_file A g)))"
      by simp
    with 1 show ?thesis by (simp add: last_file_idem)
  qed
  show ?thesis
  proof (cases x)
    case None
    show ?thesis
    proof (cases A)
      case Nil
      then show ?thesis by simp
    next
      case (Cons a A')
      show ?thesis
      proof (cases a)
        case (Tree n cs)
        have "step_val a None = step_val a (Some (Dir []))" using Tree by simp
        then have "run_val A None = run_val A (Some (Dir []))" using Cons by simp
        with dcase[of "[]"] None show ?thesis by simp
      next
        case (Put n f)
        with p Cons have f: "is_file f" by simp
        have pp: "\<forall>a\<in>set A'. proper a" using p Cons by simp
        from run_val_file[OF f pp] have 1: "run_val A' (Some f) = (map is_tree A', Some (last_file A' f))"
          and 2: "is_file (last_file A' f)" by simp_all
        have r1: "run_val A None = (False # map is_tree A', Some (last_file A' f))"
          using Cons Put 1 by simp
        from run_val_file[OF 2 p] have "run_val A (Some (last_file A' f))
            = (map is_tree A, Some (last_file A (last_file A' f)))" by simp
        then have "run_val A (Some (last_file A' f)) = (False # map is_tree A', Some (last_file A' f))"
          using Cons Put by simp
        with r1 None show ?thesis by simp
      next
        case (PutPlain n f)
        with p Cons have f: "is_file f" by simp
        have pp: "\<forall>a\<in>set A'. proper a" using p Cons by simp
        from run_val_file[OF f pp] have 1: "run_val A' (Some f) = (map is_tree A', Some (last_file A' f))"
          and 2: "is_file (last_file A' f)" by simp_all
        have r1: "run_val A None = (False # map is_tree A', Some (last_file A' f))"
          using Cons PutPlain 1 by simp
        from run_val_file[OF 2 p] have "run_val A (Some (last_file A' f))
            = (map is_tree A, Some (last_file A (last_file A' f)))" by simp
        then have "run_val A (Some (last_file A' f)) = (False # map is_tree A', Some (last_file A' f))"
          using Cons PutPlain by simp
        with r1 None show ?thesis by simp
      qed
    qed
  next
    case (Some nd)
    show ?thesis
    proof (cases nd)
      case (Dir es)
      with Some w have "well_formed es" by simp
      from dcase[OF this] Some Dir show ?thesis by simp
    next
      case (Blob b)
      with Some fcase[of nd] show ?thesis by simp
    next
      case (Pack f ms)
      with Some fcase[of nd] show ?thesis by simp
    qed
  qed
qed

lemma wt_act_of: "wt (map act_of cs) = wt_entries cs"
proof (induction cs)
  case Nil
  then show ?case by (simp add: wt_def)
next
  case (Cons c cs)
  obtain n nd where c: "c = (n, nd)" by (cases c)
  with Cons show ?case by (cases nd) (simp_all add: wt_def)
qed

lemma wt_tr: "wt (tr a) < wt_act a"
proof (cases a)
  case (Put n f)
  then show ?thesis by (simp add: wt_def)
next
  case (PutPlain n f)
  then show ?thesis by (simp add: wt_def)
next
  case (Tree n cs)
  then show ?thesis using wt_act_of[of cs] by simp
qed

lemma wt_inner: "A \<noteq> [] \<Longrightarrow> wt (inner A) < wt A"
proof (induction A)
  case Nil
  then show ?case by simp
next
  case (Cons a A)
  have "wt (inner (a # A)) = wt (tr a) + wt (inner A)" by (simp add: wt_def inner_def)
  moreover have "wt (inner A) \<le> wt A" using Cons.IH by (cases A) (auto simp: wt_def inner_def)
  moreover have "wt (a # A) = wt_act a + wt A" by (simp add: wt_def)
  ultimately show ?case using wt_tr[of a] by simp
qed

lemma wt_filter: "wt (filter P A) \<le> wt A"
  by (induction A) (simp_all add: wt_def)

lemma proper_act_of: "proper (act_of c)"
proof -
  obtain n nd where "c = (n, nd)" by (cases c)
  then show ?thesis by (cases nd) simp_all
qed

lemma proper_tr: "proper a \<Longrightarrow> \<forall>b\<in>set (tr a). proper b"
  by (cases a) (simp_all add: proper_act_of)

lemma proper_inner: "\<forall>a\<in>set A. proper a \<Longrightarrow> \<forall>b\<in>set (inner A). proper b"
  using proper_tr by (auto simp: inner_def)

lemma run_idem:
  "well_formed ds \<Longrightarrow> \<forall>a\<in>set as. proper a \<Longrightarrow> run as (snd (run as ds)) = run as ds"
proof (induction "wt as" arbitrary: as ds rule: less_induct)
  case less
  have V: "run_val (filter (\<lambda>a. key a = k) as) x' = (fl, x')"
    if "run_val (filter (\<lambda>a. key a = k) as) (map_of ds k) = (fl, x')" for k fl x'
  proof -
    let ?A = "filter (\<lambda>a. key a = k) as"
    have p: "\<forall>a\<in>set ?A. proper a" using less.prems(2) by simp
    have w: "\<And>es. map_of ds k = Some (Dir es) \<Longrightarrow> well_formed es"
      using less.prems(1) by (rule well_formed_sub)
    have ih: "run (inner ?A) (snd (run (inner ?A) es)) = run (inner ?A) es" if wf: "well_formed es" for es
    proof (cases "?A = []")
      case True
      then show ?thesis by (simp add: inner_def)
    next
      case False
      then have "wt (inner ?A) < wt ?A" by (rule wt_inner)
      also have "\<dots> \<le> wt as" by (rule wt_filter)
      finally have "wt (inner ?A) < wt as" .
      from less.hyps[OF this wf proper_inner[OF p]] show ?thesis .
    qed
    from run_val_idem[of ?A "map_of ds k", OF ih p w] that show ?thesis by simp
  qed
  obtain fl ds' where r: "run as ds = (fl, ds')" by (cases "run as ds")
  from run_idem_from_keys[of as ds, OF V well_formed_distinct[OF less.prems(1)] r] r
  show ?case by simp
qed

section \<open>Running the pipeline twice in merge mode\<close>

lemma copy_daz_root_run_stop:
  "run_stop (item_acts inc src) ds = (fst (copy_daz_root src ds inc) \<noteq> None, snd (copy_daz_root src ds inc))"
proof (induction src arbitrary: ds)
  case Nil
  then show ?case by (simp add: item_acts_def)
next
  case (Cons c src)
  obtain n nd where c: "c = (n, nd)" by (cases c)
  show ?case
  proof (cases "promo_skip inc n")
    case True
    with c Cons.IH show ?thesis by (simp add: item_acts_def)
  next
    case False
    show ?thesis
    proof (cases nd)
      case (Dir cs)
      with c False Cons.IH show ?thesis
        by (auto simp: item_acts_def simp del: copytree.simps split: prod.splits option.splits)
    next
      case (Blob b)
      with c False Cons.IH show ?thesis
        by (auto simp: item_acts_def split: prod.splits option.splits)
    next
      case (Pack f ms)
      with c False Cons.IH show ?thesis
        by (auto simp: item_acts_def split: prod.splits option.splits)
    qed
  qed
qed

lemma run_stop_append:
  "run_stop (as @ bs) ds = (if fst (run_stop as ds) then run_stop as ds else run_stop bs (snd (run_stop as ds)))"
proof (induction as arbitrary: ds)
  case Nil
  then show ?case by simp
next
  case (Cons a as)
  obtain f ds1 where s: "step a ds = (f, ds1)" by (cases "step a ds")
  show ?case using s Cons.IH[of ds1] by (cases f) simp_all
qed

lemma executed_subset: "set (executed as ds) \<subseteq> set as"
proof (induction as arbitrary: ds)
  case Nil
  then show ?case by simp
next
  case (Cons a as)
  obtain f ds1 where s: "step a ds = (f, ds1)" by (cases "step a ds")
  show ?case using s Cons.IH[of ds1] by (cases f) auto
qed

lemma run_stop_executed:
  "run_stop as ds = (True \<in> set (fst (run (executed as ds) ds)), snd (run (executed as ds) ds))"
proof (induction as arbitrary: ds)
  case Nil
  then show ?case by simp
next
  case (Cons a as)
  obtain f ds1 where s: "step a ds = (f, ds1)" by (cases "step a ds")
  show ?case using s Cons.IH[of ds1] by (cases f) (auto split: prod.splits)
qed

lemma run_stop_follow:
  "fst (run (executed as ds) T) = fst (run (executed as ds) ds) \<Longrightarrow>
     run_stop as T = (fst (run_stop as ds), snd (run (executed as ds) T))"
proof (induction as arbitrary: ds T)
  case Nil
  then show ?case by simp
next
  case (Cons a as)
  obtain f ds1 where s: "step a ds = (f, ds1)" by (cases "step a ds")
  obtain g T1 where t: "step a T = (g, T1)" by (cases "step a T")
  show ?case
  proof (cases f)
    case True
    with s have e: "executed (a # as) ds = [a]" by simp
    with Cons.prems s t True have "g" by simp
    with s t True e show ?thesis by simp
  next
    case False
    with s have e: "executed (a # as) ds = a # executed as ds1" by simp
    from Cons.prems have "fst (run (a # executed as ds1) T) = fst (run (a # executed as ds1) ds)"
      by (simp only: e)
    then have fg: "g = f" and rest: "fst (run (executed as ds1) T1) = fst (run (executed as ds1) ds1)"
      using s t by (simp_all add: run_Cons_fst run_Cons_snd del: run.simps)
    from Cons.IH[OF rest] have "run_stop as T1 = (fst (run_stop as ds1), snd (run (executed as ds1) T1))" .
    with s t fg False e show ?thesis by (simp add: run_Cons_snd del: run.simps)
  qed
qed

lemma run_stop_idem:
  assumes "well_formed ds" and "\<forall>a\<in>set as. proper a"
  shows "run_stop as (snd (run_stop as ds)) = run_stop as ds"
proof -
  let ?P = "executed as ds"
  have p: "\<forall>a\<in>set ?P. proper a" using assms(2) executed_subset[of as ds] by blast
  have T: "snd (run_stop as ds) = snd (run ?P ds)" by (simp add: run_stop_executed)
  from run_idem[OF assms(1) p] have i: "run ?P (snd (run ?P ds)) = run ?P ds" .
  then have "fst (run ?P (snd (run ?P ds))) = fst (run ?P ds)" by simp
  from run_stop_follow[OF this] have "run_stop as (snd (run ?P ds)) = (fst (run_stop as ds), snd (run ?P (snd (run ?P ds))))" .
  with i T show ?thesis by (simp add: run_stop_executed)
qed

lemma proper_item_acts: "\<forall>a\<in>set (item_acts inc src). proper a"
  by (simp add: item_acts_def proper_act_of)

lemma copy_into_blocked:
  "blocked out \<Longrightarrow> copy_into ''Content'' src inc out = (Some FileExistsError, out)"
  by (auto simp: blocked_def copy_into_def mkdir_def split: option.splits node.splits)

lemma copy_into_free:
  assumes "\<not> blocked out"
  shows "copy_into ''Content'' src inc out
     = (fst (copy_daz_root src (the_dir (map_of out ''Content'')) inc),
        AList.update ''Content'' (Dir (snd (copy_daz_root src (the_dir (map_of out ''Content'')) inc))) out)"
proof (cases "map_of out ''Content''")
  case None
  then show ?thesis
    by (simp add: copy_into_def mkdir_def update_conv' update_last split: prod.splits)
next
  case (Some nd)
  with assms obtain cs where "nd = Dir cs" by (cases nd) (auto simp: blocked_def)
  with Some show ?thesis
    by (simp add: copy_into_def mkdir_def split: prod.splits)
qed

lemma merge_run_acts:
  "merge_run srcs inc out =
     (if srcs = [] then (False, out)
      else if blocked out then (True, out)
      else (fst (run_stop (concat (map (item_acts inc) srcs)) (the_dir (map_of out ''Content''))),
            AList.update ''Content''
              (Dir (snd (run_stop (concat (map (item_acts inc) srcs)) (the_dir (map_of out ''Content''))))) out))"
proof (induction srcs arbitrary: out)
  case Nil
  then show ?case by simp
next
  case (Cons src srcs)
  show ?case
  proof (cases "blocked out")
    case True
    then show ?thesis by (simp add: copy_into_blocked)
  next
    case False
    let ?cd0 = "the_dir (map_of out ''Content'')"
    let ?A = "item_acts inc src"
    obtain b cd1 where rs: "run_stop ?A ?cd0 = (b, cd1)" by (cases "run_stop ?A ?cd0")
    then have cdr: "fst (copy_daz_root src ?cd0 inc) \<noteq> None \<longleftrightarrow> b" "snd (copy_daz_root src ?cd0 inc) = cd1"
      by (simp_all add: copy_daz_root_run_stop)
    let ?out1 = "AList.update ''Content'' (Dir cd1) out"
    have ci: "copy_into ''Content'' src inc out = (fst (copy_daz_root src ?cd0 inc), ?out1)"
      using copy_into_free[OF False, of src inc] cdr(2) by simp
    show ?thesis
    proof (cases b)
      case True
      with cdr(1) obtain e where "fst (copy_daz_root src ?cd0 inc) = Some e" by auto
      with ci have "merge_run (src # srcs) inc out = (True, ?out1)" by simp
      moreover have "run_stop (concat (map (item_acts inc) (src # srcs))) ?cd0 = (True, cd1)"
        using rs True by (simp add: run_stop_append)
      ultimately show ?thesis using False by simp
    next
      case nb: False
      with cdr(1) have "fst (copy_daz_root src ?cd0 inc) = None" by simp
      with ci have m: "merge_run (src # srcs) inc out = merge_run srcs inc ?out1" by simp
      have nbl: "\<not> blocked ?out1" by (simp add: blocked_def update_conv')
      have cd: "the_dir (map_of ?out1 ''Content'') = cd1" by (simp add: update_conv')
      have rsa: "run_stop (concat (map (item_acts inc) (src # srcs))) ?cd0
          = run_stop (concat (map (item_acts inc) srcs)) cd1"
        using rs nb by (simp add: run_stop_append)
      show ?thesis
      proof (cases "srcs = []")
        case True
        with m rsa False show ?thesis by simp
      next
        case ne: False
        from Cons.IH[of ?out1] ne nbl cd m
        have "merge_run (src # srcs) inc out
            = (fst (run_stop (concat (map (item_acts inc) srcs)) cd1),
               AList.update ''Content'' (Dir (snd (run_stop (concat (map (item_acts inc) srcs)) cd1))) ?out1)"
          by simp
        with rsa False show ?thesis by (simp add: update_last)
      qed
    qed
  qed
qed

lemma proper_concat_item_acts: "\<forall>a\<in>set (concat (map (item_acts inc) srcs)). proper a"
  using proper_item_acts by auto

lemma merge_run_idem:
  assumes "well_formed (the_dir (map_of out ''Content''))"
  shows "merge_run srcs inc (snd (merge_run srcs inc out)) = merge_run srcs inc out"
proof (cases "srcs = [] \<or> blocked out")
  case True
  then show ?thesis by (auto simp: merge_run_acts)
next
  case False
  let ?A = "concat (map (item_acts inc) srcs)"
  let ?cd0 = "the_dir (map_of out ''Content'')"
  obtain b cd' where rs: "run_stop ?A ?cd0 = (b, cd')" by (cases "run_stop ?A ?cd0")
  let ?out' = "AList.update ''Content'' (Dir cd') out"
  from False rs have m: "merge_run srcs inc out = (b, ?out')" by (simp add: merge_run_acts)
  have nbl: "\<not> blocked ?out'" by (simp add: blocked_def update_conv')
  have cd: "the_dir (map_of ?out' ''Content'') = cd'" by (simp add: update_conv')
  from run_stop_idem[OF assms proper_concat_item_acts, of inc srcs] rs
  have "run_stop ?A cd' = (b, cd')" by simp
  with False nbl cd have "merge_run srcs inc ?out' = (b, AList.update ''Content'' (Dir cd') ?out')"
    by (simp add: merge_run_acts)
  with m show ?thesis by (simp add: update_last)
qed

lemma merge_run_append:
  "merge_run (xs @ ys) inc out
     = (if fst (merge_run xs inc out) then merge_run xs inc out
        else merge_run ys inc (snd (merge_run xs inc out)))"
proof (induction xs arbitrary: out)
  case Nil
  then show ?case by simp
next
  case (Cons x xs)
  obtain r out1 where c: "copy_into ''Content'' x inc out = (r, out1)"
    by (cases "copy_into ''Content'' x inc out")
  show ?case using c Cons.IH[of out1] by (cases r) simp_all
qed

lemma merge_run_three:
  "merge_run (s1 # s2 # s3 # rest) inc out
     = (if fst (merge_run [s1, s2, s3] inc out) then merge_run [s1, s2, s3] inc out
        else merge_run rest inc (snd (merge_run [s1, s2, s3] inc out)))"
  using merge_run_append[of "[s1, s2, s3]" rest inc out] by (simp del: merge_run.simps)

lemma merge_archives_processed:
  "merge_archives as inc out = Some (b, out') \<Longrightarrow> merge_run (processed as inc out) inc out = (b, out')"
proof (induction as arbitrary: out)
  case Nil
  then show ?case by simp
next
  case (Cons a as)
  show ?case
  proof (cases "content_source (fst a) (snd a)")
    case None
    with Cons.prems show ?thesis by simp
  next
    case (Some found)
    show ?thesis
    proof (cases found)
      case None
      with Some Cons show ?thesis by simp
    next
      case (Some src)
      obtain c out1 where m: "merge_run [src, src, src] inc out = (c, out1)"
        by (cases "merge_run [src, src, src] inc out")
      show ?thesis
      proof (cases c)
        case True
        with m Some \<open>content_source (fst a) (snd a) = Some found\<close> Cons.prems
        show ?thesis by (simp del: merge_run.simps)
      next
        case False
        with m Some \<open>content_source (fst a) (snd a) = Some found\<close> Cons.prems
        have "merge_archives as inc out1 = Some (b, out')" by (simp del: merge_run.simps)
        from Cons.IH[OF this] have r: "merge_run (processed as inc out1) inc out1 = (b, out')" .
        have "processed (a # as) inc out = src # src # src # processed as inc out1"
          using m False Some \<open>content_source (fst a) (snd a) = Some found\<close>
          by (simp del: merge_run.simps)
        then show ?thesis
          using merge_run_three[of src src src "processed as inc out1" inc out] m False r
          by (simp del: merge_run.simps processed.simps)
      qed
    qed
  qed
qed

lemma merge_archives_follow:
  "merge_archives as inc out = Some (b, out') \<Longrightarrow>
   merge_run (processed as inc out) inc T = (b, T') \<Longrightarrow>
   merge_archives as inc T = Some (b, T')"
proof (induction as arbitrary: out T)
  case Nil
  then show ?case by simp
next
  case (Cons a as)
  show ?case
  proof (cases "content_source (fst a) (snd a)")
    case None
    with Cons.prems show ?thesis by simp
  next
    case (Some found)
    note cs = this
    show ?thesis
    proof (cases found)
      case None
      with cs Cons show ?thesis by simp
    next
      case (Some src)
      obtain c out1 where m: "merge_run [src, src, src] inc out = (c, out1)"
        by (cases "merge_run [src, src, src] inc out")
      obtain d T1 where t: "merge_run [src, src, src] inc T = (d, T1)"
        by (cases "merge_run [src, src, src] inc T")
      show ?thesis
      proof (cases c)
        case True
        with m Some cs Cons.prems(1) have b: "b" by (auto simp del: merge_run.simps)
        from True m Some cs have "processed (a # as) inc out = [src, src, src]"
          by (simp del: merge_run.simps)
        with Cons.prems(2) t have "d = b" "T1 = T'" by (simp_all del: merge_run.simps)
        with b t Some cs show ?thesis by (simp del: merge_run.simps)
      next
        case False
        with m Some cs Cons.prems(1) have rest: "merge_archives as inc out1 = Some (b, out')"
          by (simp del: merge_run.simps)
        from False m Some cs have pr: "processed (a # as) inc out = src # src # src # processed as inc out1"
          by (simp del: merge_run.simps)
        note three = merge_run_three[of src src src "processed as inc out1" inc T]
        show ?thesis
        proof (cases d)
          case True
          with Cons.prems(2) pr t three have "b" "T' = T1"
            by (simp_all del: merge_run.simps processed.simps)
          with True t Some cs show ?thesis by (simp del: merge_run.simps)
        next
          case nd: False
          with Cons.prems(2) pr t three have "merge_run (processed as inc out1) inc T1 = (b, T')"
            by (simp del: merge_run.simps processed.simps)
          from Cons.IH[OF rest this] nd t Some cs show ?thesis by (simp del: merge_run.simps)
        qed
      qed
    qed
  qed
qed

lemma merge_archives_idem:
  assumes "well_formed (the_dir (map_of out ''Content''))"
    and "merge_archives as inc out = Some (b, out')"
  shows "merge_archives as inc out' = Some (b, out')"
proof -
  from merge_archives_processed[OF assms(2)]
  have m: "merge_run (processed as inc out) inc out = (b, out')" .
  with merge_run_idem[OF assms(1), of "processed as inc out" inc]
  have "merge_run (processed as inc out) inc out' = (b, out')" by simp
  with assms(2) show ?thesis by (rule merge_archives_follow)
qed

lemma content_source_SomeD:
  assumes "content_source nm a = Some found"
  obtains t2 out2 where
    "extract_all_archives_recursively (fst (snd (extract_archive [nm] (Some a) []))) = Some (t2, out2)"
    "found = (case find_daz_root t2 of None \<Rightarrow> None | Some r \<Rightarrow> Some (the_dir (lookup t2 r)))"
  using assms by (auto simp: content_source_def split: option.splits)

lemma finish_merge:
  "\<exists>st'. finish nm tmp r inc keep True st
           = (flow_of (fst (copy_into ''Content'' (the_dir (lookup tmp r)) inc (outdir st))), st')
         \<and> outdir st' = snd (copy_into ''Content'' (the_dir (lookup tmp r)) inc (outdir st))"
  by (cases "copy_into ''Content'' (the_dir (lookup tmp r)) inc (outdir st)")
     (auto simp: finish_def emit_def flow_of_def split: option.splits)

lemma block1_merge:
  assumes "content_source nm a = Some (Some src)"
  shows "\<exists>st'. block1 nm a inc keep True st
           = Some (flow_of (fst (copy_into ''Content'' src inc (outdir st))), st')
         \<and> outdir st' = snd (copy_into ''Content'' src inc (outdir st))"
proof -
  from assms obtain t2 out2 where
    u: "extract_all_archives_recursively (fst (snd (extract_archive [nm] (Some a) []))) = Some (t2, out2)"
    and f: "Some src = (case find_daz_root t2 of None \<Rightarrow> None | Some r \<Rightarrow> Some (the_dir (lookup t2 r)))"
    by (rule content_source_SomeD)
  from f obtain r where r: "find_daz_root t2 = Some r" "src = the_dir (lookup t2 r)"
    by (auto split: option.splits)
  obtain x t1 out1 where e: "extract_archive [nm] (Some a) [] = (x, t1, out1)"
    by (cases "extract_archive [nm] (Some a) []") auto
  let ?st = "st\<lparr>console := (console st @ [Processing nm] @ out1 @ [ContentsAfter (map fst t1)] @ out2) @ [FoundRoot r]\<rparr>"
  have "block1 nm a inc keep True st = Some (finish nm t2 r inc keep True ?st)"
    using e u r by (simp add: block1_def Let_def)
  with finish_merge[of nm t2 r inc keep ?st] r(2) show ?thesis by auto
qed

lemma block2_merge:
  assumes "content_source nm a = Some (Some src)"
  shows "\<exists>st'. block2 nm a inc keep True st
           = Some (flow_of (fst (copy_into ''Content'' src inc (outdir st))), st')
         \<and> outdir st' = snd (copy_into ''Content'' src inc (outdir st))"
proof -
  from assms obtain t2 out2 where
    u: "extract_all_archives_recursively (fst (snd (extract_archive [nm] (Some a) []))) = Some (t2, out2)"
    and f: "Some src = (case find_daz_root t2 of None \<Rightarrow> None | Some r \<Rightarrow> Some (the_dir (lookup t2 r)))"
    by (rule content_source_SomeD)
  from f obtain r where r: "find_daz_root t2 = Some r" "src = the_dir (lookup t2 r)"
    by (auto split: option.splits)
  obtain x t1 out1 where e: "extract_archive [nm] (Some a) [] = (x, t1, out1)"
    by (cases "extract_archive [nm] (Some a) []") auto
  let ?st = "st\<lparr>console := console st @ [Extracting nm] @ out1 @ out2\<rparr>"
  have "block2 nm a inc keep True st = Some (finish nm t2 r inc keep True ?st)"
    using e u r by (simp add: block2_def Let_def)
  with finish_merge[of nm t2 r inc keep ?st] r(2) show ?thesis by auto
qed

lemma block3_merge:
  assumes "content_source nm a = Some (Some src)"
  shows "\<exists>st'. block3 nm a inc keep True st
           = Some (flow_of (fst (copy_into ''Content'' src inc (outdir st))), st')
         \<and> outdir st' = snd (copy_into ''Content'' src inc (outdir st))"
proof -
  from assms obtain t2 out2 where
    u: "extract_all_archives_recursively (fst (snd (extract_archive [nm] (Some a) []))) = Some (t2, out2)"
    and f: "Some src = (case find_daz_root t2 of None \<Rightarrow> None | Some r \<Rightarrow> Some (the_dir (lookup t2 r)))"
    by (rule content_source_SomeD)
  from f obtain r where r: "find_daz_root t2 = Some r" "src = the_dir (lookup t2 r)"
    by (auto split: option.splits)
  obtain x t1 out1 where e: "extract_archive [nm] (Some a) [] = (x, t1, out1)"
    by (cases "extract_archive [nm] (Some a) []") auto
  let ?st = "st\<lparr>console := console st @ [Extracting nm] @ out1 @ out2 @ [DetectedRoot r]\<rparr>"
  have "block3 nm a inc keep True st = Some (finish nm t2 r inc keep True ?st)"
    using e u r by (simp add: block3_def Let_def)
  with finish_merge[of nm t2 r inc keep ?st] r(2) show ?thesis by auto
qed

lemma raised_flow_of [simp]: "raised (flow_of r) = (r \<noteq> None)"
  by (cases r) (simp_all add: raised_def flow_of_def)

lemma process_archive_diverges:
  "content_source nm a = None \<Longrightarrow> process_archive nm a inc keep True st = None"
  by (auto simp: content_source_def process_archive_def block1_def split: option.splits prod.splits)

lemma process_archive_no_root:
  assumes "content_source nm a = Some None"
  shows "\<exists>st'. process_archive nm a inc keep True st = Some (Returned, st') \<and> outdir st' = outdir st"
proof -
  from assms obtain t2 out2 where
    u: "extract_all_archives_recursively (fst (snd (extract_archive [nm] (Some a) []))) = Some (t2, out2)"
    and f: "None = (case find_daz_root t2 of None \<Rightarrow> None | Some r \<Rightarrow> Some (the_dir (lookup t2 r)))"
    by (rule content_source_SomeD)
  from f have n: "find_daz_root t2 = None" by (auto split: option.splits)
  obtain x t1 out1 where e: "extract_archive [nm] (Some a) [] = (x, t1, out1)"
    by (cases "extract_archive [nm] (Some a) []") auto
  from e u n have "\<exists>st'. block1 nm a inc keep True st = Some (Returned, st') \<and> outdir st' = outdir st"
    by (simp add: block1_def Let_def)
  then show ?thesis by (auto simp: process_archive_def)
qed

lemma process_archive_merge:
  assumes cs: "content_source nm a = Some (Some src)"
  shows "\<exists>fl st'. process_archive nm a inc keep True st = Some (fl, st')
           \<and> (raised fl, outdir st') = merge_run [src, src, src] inc (outdir st)"
proof -
  from block1_merge[OF cs, of inc keep st] obtain st1 where
    b1: "block1 nm a inc keep True st = Some (flow_of (fst (copy_into ''Content'' src inc (outdir st))), st1)"
    and o1: "outdir st1 = snd (copy_into ''Content'' src inc (outdir st))" by blast
  obtain r1 out1 where c1: "copy_into ''Content'' src inc (outdir st) = (r1, out1)"
    by (cases "copy_into ''Content'' src inc (outdir st)")
  show ?thesis
  proof (cases r1)
    case (Some e)
    with b1 c1 have "process_archive nm a inc keep True st = Some (Raised e, st1)"
      by (simp add: process_archive_def flow_of_def)
    moreover from Some c1 o1 have "(raised (Raised e), outdir st1) = merge_run [src, src, src] inc (outdir st)"
      by (simp add: raised_def)
    ultimately show ?thesis by blast
  next
    case None
    from block2_merge[OF cs, of inc keep st1] obtain st2 where
      b2: "block2 nm a inc keep True st1 = Some (flow_of (fst (copy_into ''Content'' src inc (outdir st1))), st2)"
      and o2: "outdir st2 = snd (copy_into ''Content'' src inc (outdir st1))" by blast
    obtain r2 out2 where c2: "copy_into ''Content'' src inc out1 = (r2, out2)"
      by (cases "copy_into ''Content'' src inc out1")
    from c1 o1 have o1': "outdir st1 = out1" by simp
    show ?thesis
    proof (cases r2)
      case (Some e)
      with b1 b2 c1 c2 None o1' have "process_archive nm a inc keep True st = Some (Raised e, st2)"
        by (simp add: process_archive_def flow_of_def)
      moreover from Some None c1 c2 o2 o1'
      have "(raised (Raised e), outdir st2) = merge_run [src, src, src] inc (outdir st)"
        by (simp add: raised_def)
      ultimately show ?thesis by blast
    next
      case n2: None
      from block3_merge[OF cs, of inc keep st2] obtain st3 where
        b3: "block3 nm a inc keep True st2 = Some (flow_of (fst (copy_into ''Content'' src inc (outdir st2))), st3)"
        and o3: "outdir st3 = snd (copy_into ''Content'' src inc (outdir st2))" by blast
      from c2 o2 o1' have o2': "outdir st2 = out2" by simp
      obtain r3 out3 where c3: "copy_into ''Content'' src inc out2 = (r3, out3)"
        by (cases "copy_into ''Content'' src inc out2")
      from b1 b2 b3 c1 c2 c3 None n2 o1' o2'
      have p: "process_archive nm a inc keep True st = Some (flow_of r3, st3)"
        by (simp add: process_archive_def flow_of_def)
      have "(raised (flow_of r3), outdir st3) = merge_run [src, src, src] inc (outdir st)"
        using None n2 c1 c2 c3 o3 o2' by (cases r3) simp_all
      with p show ?thesis by blast
    qed
  qed
qed

lemma run_archives_merge:
  "map_option outcome (run_archives as inc keep True st) = merge_archives as inc (outdir st)"
proof (induction as arbitrary: st)
  case Nil
  then show ?case by (simp add: outcome_def)
next
  case (Cons a as)
  show ?case
  proof (cases "content_source (fst a) (snd a)")
    case None
    then show ?thesis by (simp add: process_archive_diverges)
  next
    case (Some found)
    note cs = this
    show ?thesis
    proof (cases found)
      case None
      with cs process_archive_no_root[of "fst a" "snd a" inc keep st] obtain st' where
        "process_archive (fst a) (snd a) inc keep True st = Some (Returned, st')" "outdir st' = outdir st"
        by blast
      with None cs Cons.IH[of st'] show ?thesis by simp
    next
      case (Some src)
      with cs process_archive_merge[of "fst a" "snd a" src inc keep st] obtain fl st' where
        p: "process_archive (fst a) (snd a) inc keep True st = Some (fl, st')"
        and m: "(raised fl, outdir st') = merge_run [src, src, src] inc (outdir st)" by blast
      show ?thesis
      proof (cases fl)
        case (Raised e)
        with p m[symmetric] Some cs show ?thesis
          by (simp add: raised_def outcome_def del: merge_run.simps)
      next
        case Fallthrough
        with p m[symmetric] Some cs Cons.IH[of st'] show ?thesis
          by (simp add: raised_def del: merge_run.simps)
      next
        case Returned
        with p m[symmetric] Some cs Cons.IH[of st'] show ?thesis
          by (simp add: raised_def del: merge_run.simps)
      qed
    qed
  qed
qed

lemma main_merge:
  "map_option outcome (main input inc keep True st)
     = merge_archives (filter (\<lambda>f. is_file (snd f) \<and> lower (path_suffix (fst f)) \<in> set ARCHIVE_EXTS) input)
         inc (outdir st)"
proof -
  let ?as = "filter (\<lambda>f. is_file (snd f) \<and> lower (path_suffix (fst f)) \<in> set ARCHIVE_EXTS) input"
  show ?thesis
  proof (cases "?as = []")
    case True
    then show ?thesis by (simp add: main_def outcome_def)
  next
    case False
    have "map_option outcome (main input inc keep True st)
        = map_option outcome (run_archives ?as inc keep True st)"
      using False
      by (auto simp: main_def Let_def outcome_def split: option.splits prod.splits)
    then show ?thesis by (simp add: run_archives_merge)
  qed
qed

text \<open>
  Claim C10. In merge mode, when the \<^verbatim>\<open>Content\<close> directory the first run starts from is
  well formed (no directory lists a name twice) and the first run ends, a second run on the
  same input directory and flags ends too, with or without an exception as the first did,
  and leaves the output directory, \<^verbatim>\<open>Content\<close> in it, exactly as the first run left it.
\<close>

theorem merge_mode_twice:
  assumes "well_formed (the_dir (map_of (outdir st) ''Content''))"
    and "main input_dir include_promos keep_temp True st = Some (e1, st1)"
  shows "\<exists>e2 st2. main input_dir include_promos keep_temp True st1 = Some (e2, st2)
           \<and> outdir st2 = outdir st1
           \<and> map_of (outdir st2) ''Content'' = map_of (outdir st1) ''Content''
           \<and> (e2 = None \<longleftrightarrow> e1 = None)"
proof -
  let ?as = "filter (\<lambda>f. is_file (snd f) \<and> lower (path_suffix (fst f)) \<in> set ARCHIVE_EXTS) input_dir"
  from assms(2) main_merge[of input_dir include_promos keep_temp st]
  have "merge_archives ?as include_promos (outdir st) = Some (e1 \<noteq> None, outdir st1)"
    by (simp add: outcome_def)
  from merge_archives_idem[OF assms(1) this]
  have "merge_archives ?as include_promos (outdir st1) = Some (e1 \<noteq> None, outdir st1)" .
  with main_merge[of input_dir include_promos keep_temp st1]
  have "map_option outcome (main input_dir include_promos keep_temp True st1) = Some (e1 \<noteq> None, outdir st1)"
    by simp
  then obtain r where "main input_dir include_promos keep_temp True st1 = Some r"
    "outcome r = (e1 \<noteq> None, outdir st1)" by auto
  then show ?thesis by (cases r) (auto simp: outcome_def)
qed

theorem merge_mode_twice_witness:
  "well_formed (the_dir (map_of (outdir \<lparr>outdir = [], temps = [], console = []\<rparr>) ''Content''))
   \<and> (\<exists>e1 st1.
        main [(''a.zip'', Pack Zip [(''Runtime'', Dir [(''f'', Blob 1), (''x'', Dir [])]), (''promo.jpg'', Blob 7)]),
              (''notes.txt'', Blob 9),
              (''b.rar'', Pack Rar [(''top'', Dir [(''People'', Dir []), (''Runtime'', Dir [(''f'', Blob 2), (''x'', Blob 3)])])])]
          False False True \<lparr>outdir = [], temps = [], console = []\<rparr> = Some (e1, st1)
        \<and> outdir st1 = [(''Content'', Dir [(''Runtime'', Dir [(''f'', Blob 2), (''x'', Dir [(''x'', Blob 3)])]),
                                           (''People'', Dir [])])]
        \<and> (\<exists>e2 st2.
             main [(''a.zip'', Pack Zip [(''Runtime'', Dir [(''f'', Blob 1), (''x'', Dir [])]), (''promo.jpg'', Blob 7)]),
                   (''notes.txt'', Blob 9),
                   (''b.rar'', Pack Rar [(''top'', Dir [(''People'', Dir []), (''Runtime'', Dir [(''f'', Blob 2), (''x'', Blob 3)])])])]
               False False True st1 = Some (e2, st2)
             \<and> outdir st2 = outdir st1))"
proof -
  let ?input = "[(''a.zip'', Pack Zip [(''Runtime'', Dir [(''f'', Blob 1), (''x'', Dir [])]), (''promo.jpg'', Blob 7)]),
              (''notes.txt'', Blob 9),
              (''b.rar'', Pack Rar [(''top'', Dir [(''People'', Dir []), (''Runtime'', Dir [(''f'', Blob 2), (''x'', Blob 3)])])])]"
  let ?st = "\<lparr>outdir = [], temps = [], console = []\<rparr>"
  have w: "well_formed (the_dir (map_of (outdir ?st) ''Content''))" by simp
  have "map_option (\<lambda>r. outdir (snd r)) (main ?input False False True ?st)
      = Some [(''Content'', Dir [(''Runtime'', Dir [(''f'', Blob 2), (''x'', Dir [(''x'', Blob 3)])]),
                                  (''People'', Dir [])])]"
    by code_simp
  then obtain e1 st1 where r1: "main ?input False False True ?st = Some (e1, st1)"
    and o1: "outdir st1 = [(''Content'', Dir [(''Runtime'', Dir [(''f'', Blob 2), (''x'', Dir [(''x'', Blob 3)])]),
                                  (''People'', Dir [])])]"
    by auto
  from merge_mode_twice[OF w r1] obtain e2 st2 where
    "main ?input False False True st1 = Some (e2, st2)" "outdir st2 = outdir st1" by blast
  with w r1 o1 show ?thesis by blast
qed

end
